theory Spec2Isabelle
  imports Complex_Main "HOL-Library.Word"
begin

section \<open>Data model\<close>

text \<open>
  The extraction pipeline of \<^verbatim>\<open>src/js/image-processor.js\<close>. An image is the
  browser's ImageData: a byte array of RGBA samples in row-major order with its width
  and height. A region is the integer rectangle handed over by the selector. Every
  number the pipeline computes from the 8-bit channels is finite, so a grayscale field
  and a waveform are lists of reals; the arithmetic is exact (the rounding of the
  floating-point arrays is not part of the model).
\<close>

record PixelBuffer =
  img_data :: "8 word list"
  img_width :: nat
  img_height :: nat

record Region =
  roi_x :: int
  roi_y :: int
  roi_width :: int
  roi_height :: int

text \<open>
  The failures of an extraction. The code throws \<^verbatim>\<open>ROI_TOO_SMALL\<close> and
  \<^verbatim>\<open>NO_VARIATION\<close>; \<open>MalformedInput\<close> is the third kind of the specification's
  taxonomy.
\<close>

datatype error = RegionTooSmall | NoVariation | MalformedInput

section \<open>Region extractor\<close>

text \<open>
  Reading a typed array outside its bounds gives \<^verbatim>\<open>undefined\<close>, and storing that into
  the clamped byte array of the crop stores 0.
\<close>

definition srcByte :: "8 word list \<Rightarrow> int \<Rightarrow> 8 word" where
  "srcByte srcData i = (if 0 \<le> i \<and> i < int (length srcData) then srcData ! nat i else 0)"

definition cropPixel :: "PixelBuffer \<Rightarrow> Region \<Rightarrow> nat \<Rightarrow> nat \<Rightarrow> 8 word list" where
  "cropPixel imageData bounds row col =
     (let srcIdx = ((roi_y bounds + int row) * int (img_width imageData)
                     + (roi_x bounds + int col)) * 4
      in [srcByte (img_data imageData) srcIdx,
          srcByte (img_data imageData) (srcIdx + 1),
          srcByte (img_data imageData) (srcIdx + 2),
          srcByte (img_data imageData) (srcIdx + 3)])"

definition cropToROI :: "PixelBuffer \<Rightarrow> Region \<Rightarrow> 8 word list" where
  "cropToROI imageData bounds =
     concat (map (\<lambda>row. concat (map (\<lambda>col. cropPixel imageData bounds row col)
                                      [0..<nat (roi_width bounds)]))
                 [0..<nat (roi_height bounds)])"

section \<open>Luminance mapper and contrast stretcher\<close>

definition toGrayscale :: "8 word list \<Rightarrow> real list" where
  "toGrayscale rgbaData =
     map (\<lambda>i. 299 / 1000 * real (unat (rgbaData ! (i * 4)))
             + 587 / 1000 * real (unat (rgbaData ! (i * 4 + 1)))
             + 114 / 1000 * real (unat (rgbaData ! (i * 4 + 2))))
         [0..<length rgbaData div 4]"

text \<open>
  The running minimum and maximum start at plus and minus infinity, so the first sample
  replaces both; the loops below start from the first sample.
\<close>

definition lowest :: "real \<Rightarrow> real list \<Rightarrow> real" where
  "lowest v vs = fold (\<lambda>d m. if d < m then d else m) vs v"

definition highest :: "real \<Rightarrow> real list \<Rightarrow> real" where
  "highest v vs = fold (\<lambda>d m. if d > m then d else m) vs v"

definition stretchContrast :: "real list \<Rightarrow> real list" where
  "stretchContrast grayscale =
     (case grayscale of
        [] \<Rightarrow> []
      | v # vs \<Rightarrow>
          (let mn = lowest v vs; mx = highest v vs; range = mx - mn
           in if range = 0 then grayscale
              else map (\<lambda>g. ((g - mn) / range) * 255) grayscale))"

section \<open>Noise suppressor\<close>

text \<open>
  The kernel loops keep a running sum and count of the neighbours inside the field. The
  field has \<open>width * height\<close> samples, as every field of the pipeline has, so that the
  two outer loops fill the whole result.
\<close>

definition blurTap :: "real list \<Rightarrow> nat \<Rightarrow> nat \<Rightarrow> nat \<Rightarrow> nat \<Rightarrow> int \<Rightarrow> int
    \<Rightarrow> real \<times> nat \<Rightarrow> real \<times> nat" where
  "blurTap data width height y x ky kx acc =
     (let ny = int y + ky; nx = int x + kx
      in if ny \<ge> 0 \<and> ny < int height \<and> nx \<ge> 0 \<and> nx < int width
         then (fst acc + data ! nat (ny * int width + nx), snd acc + 1)
         else acc)"

definition blurAt :: "real list \<Rightarrow> nat \<Rightarrow> nat \<Rightarrow> nat \<Rightarrow> nat \<Rightarrow> nat \<Rightarrow> real" where
  "blurAt data width height radius y x =
     (let acc = fold (\<lambda>ky. fold (\<lambda>kx. blurTap data width height y x ky kx)
                                 [- int radius..int radius])
                     [- int radius..int radius] (0, 0)
      in fst acc / real (snd acc))"

definition boxBlur :: "real list \<Rightarrow> nat \<Rightarrow> nat \<Rightarrow> nat \<Rightarrow> real list" where
  "boxBlur data width height radius =
     concat (map (\<lambda>y. map (\<lambda>x. blurAt data width height radius y x) [0..<width])
                 [0..<height])"

section \<open>Threshold selector\<close>

definition binOf :: "real \<Rightarrow> nat" where
  "binOf g = nat (min 255 (max 0 \<lfloor>g\<rfloor>))"

definition buildHistogram :: "real list \<Rightarrow> int list" where
  "buildHistogram grayscale =
     fold (\<lambda>g histogram. histogram[binOf g := histogram ! binOf g + 1])
          grayscale (replicate 256 0)"

definition weightedSum :: "int list \<Rightarrow> int" where
  "weightedSum histogram = fold (\<lambda>i s. s + int i * histogram ! i) [0..<256] 0"

text \<open>
  The scan over the candidate thresholds, with the loop variables as arguments:
  \<open>continue\<close> goes on with the next candidate, \<open>break\<close> returns the committed threshold.
\<close>

function otsuScan :: "int list \<Rightarrow> int \<Rightarrow> int \<Rightarrow> nat \<Rightarrow> int \<Rightarrow> int \<Rightarrow> real \<Rightarrow> nat \<Rightarrow> nat" where
  "otsuScan histogram totalN sumAll t sumB wB maxVariance threshold =
     (if t < 256 then
        (let wB' = wB + histogram ! t
         in if wB' = 0 then otsuScan histogram totalN sumAll (t + 1) sumB wB' maxVariance threshold
            else
              (let wF = totalN - wB'
               in if wF = 0 then threshold
                  else
                    (let sumB' = sumB + int t * histogram ! t;
                         mB = real_of_int sumB' / real_of_int wB';
                         mF = real_of_int (sumAll - sumB') / real_of_int wF;
                         variance = real_of_int wB' * real_of_int wF * (mB - mF) * (mB - mF)
                     in if variance > maxVariance
                        then otsuScan histogram totalN sumAll (t + 1) sumB' wB' variance t
                        else otsuScan histogram totalN sumAll (t + 1) sumB' wB' maxVariance threshold)))
      else threshold)"
  by pat_completeness auto
termination
  by (relation "measure (\<lambda>(histogram, totalN, sumAll, t, sumB, wB, maxVariance, threshold). 256 - t)") auto

declare otsuScan.simps [simp del]

definition otsuThreshold :: "real list \<Rightarrow> nat" where
  "otsuThreshold grayscale =
     (let histogram = buildHistogram grayscale;
          totalN = int (length grayscale);
          sumAll = weightedSum histogram
      in otsuScan histogram totalN sumAll 0 0 0 0 0)"

section \<open>Boundary scanner\<close>

text \<open>
  One pass over a row. \<open>lit\<close> is the polarity test of the pass (\<open>isLight\<close> in the first
  loop, \<open>isDark\<close> in the second), \<open>leftEdge\<close> the loop's variable with \<open>-1\<close> for
  "not found"; \<open>rightEdge\<close> is \<open>-1\<close> as long as the loop runs, the loop ends at once
  when it is set. The result is the pair of both edges after the loop.
\<close>

function edgeScan :: "(real \<Rightarrow> bool) \<Rightarrow> real list \<Rightarrow> nat \<Rightarrow> nat \<Rightarrow> nat \<Rightarrow> int \<Rightarrow> int \<times> int" where
  "edgeScan lit data rowStart width x leftEdge =
     (if x < width then
        (let val = data ! (rowStart + x);
             leftEdge' = (if lit val \<and> leftEdge = - 1 then int x else leftEdge)
         in if \<not> lit val \<and> leftEdge' \<noteq> - 1 then (leftEdge', int x)
            else edgeScan lit data rowStart width (x + 1) leftEdge')
      else (leftEdge, - 1))"
  by pat_completeness auto
termination
  by (relation "measure (\<lambda>(lit, data, rowStart, width, x, leftEdge). width - x)") auto

declare edgeScan.simps [simp del]

text \<open>After a pass: a left edge without a right edge takes the row's width as right edge.\<close>

definition closeEdge :: "nat \<Rightarrow> int \<times> int \<Rightarrow> int \<times> int" where
  "closeEdge width e =
     (if fst e \<noteq> - 1 \<and> snd e = - 1 then (fst e, int width) else e)"

definition rowEdges :: "real list \<Rightarrow> nat \<Rightarrow> real \<Rightarrow> nat \<Rightarrow> int \<times> int" where
  "rowEdges data width threshold y =
     (let rowStart = y * width;
          e = closeEdge width (edgeScan (\<lambda>val. val > threshold) data rowStart width 0 (- 1))
      in if fst e = - 1
         then closeEdge width (edgeScan (\<lambda>val. val \<le> threshold) data rowStart width 0 (fst e))
         else e)"

text \<open>
  The amplitude of a row. The last branch is the mean-brightness fallback of the code; at
  width 0 the code divides 0 by 0 there.
\<close>

definition rowAmplitude :: "real list \<Rightarrow> nat \<Rightarrow> real \<Rightarrow> nat \<Rightarrow> real" where
  "rowAmplitude data width threshold y =
     (let e = rowEdges data width threshold y; leftEdge = fst e; rightEdge = snd e
      in if leftEdge \<noteq> - 1 \<and> rightEdge \<noteq> - 1
         then real_of_int (rightEdge - leftEdge) / real width
         else (fold (\<lambda>x s. s + data ! (y * width + x)) [0..<width] 0 / real width) / 255)"

definition findBoundaries :: "real list \<Rightarrow> nat \<Rightarrow> nat \<Rightarrow> real \<Rightarrow> real list" where
  "findBoundaries data width height threshold =
     map (\<lambda>y. rowAmplitude data width threshold y) [0..<height]"

section \<open>Signal validator and post-processor\<close>

definition standardDeviation :: "real list \<Rightarrow> real" where
  "standardDeviation data =
     (let n = length data
      in if n = 0 then 0
         else (let mean = foldl (\<lambda>s val. s + val) 0 data / real n;
                   variance = foldl (\<lambda>s val. s + (val - mean) ^ 2) 0 data / real n
               in sqrt variance))"

definition normalizeWaveform :: "real list \<Rightarrow> real list" where
  "normalizeWaveform data =
     (case data of
        [] \<Rightarrow> []
      | v # vs \<Rightarrow>
          (let mn = lowest v vs; mx = highest v vs; range = mx - mn
           in if range = 0 then replicate (length data) 0
              else map (\<lambda>d. ((d - mn) / range) * 2 - 1) data))"

definition removeDCOffset :: "real list \<Rightarrow> real list" where
  "removeDCOffset data =
     (let mean = foldl (\<lambda>s val. s + val) 0 data / real (length data)
      in map (\<lambda>d. d - mean) data)"

definition windowTap :: "real list \<Rightarrow> int \<Rightarrow> real \<times> nat \<Rightarrow> real \<times> nat" where
  "windowTap data j acc =
     (if j \<ge> 0 \<and> j < int (length data) then (fst acc + data ! nat j, snd acc + 1) else acc)"

definition movingAverage :: "real list \<Rightarrow> nat \<Rightarrow> real list" where
  "movingAverage data windowSize =
     (let halfWindow = windowSize div 2
      in map (\<lambda>i. let acc = fold (windowTap data)
                                  [int i - int halfWindow..int i + int halfWindow] (0, 0)
                   in fst acc / real (snd acc))
             [0..<length data])"

section \<open>The extraction\<close>

definition extractWaveform :: "PixelBuffer \<Rightarrow> Region \<Rightarrow> error + real list" where
  "extractWaveform imageData roiBounds =
     (if roi_width roiBounds < 20 \<or> roi_height roiBounds < 20 then Inl RegionTooSmall
      else
        (let roiData = cropToROI imageData roiBounds;
             grayscale = toGrayscale roiData;
             enhanced = stretchContrast grayscale;
             smoothed = boxBlur enhanced (nat (roi_width roiBounds)) (nat (roi_height roiBounds)) 3;
             threshold = otsuThreshold smoothed;
             rawWaveform = findBoundaries smoothed (nat (roi_width roiBounds))
                             (nat (roi_height roiBounds)) (real threshold);
             stdDev = standardDeviation rawWaveform
         in if stdDev < 1 / 100 then Inl NoVariation
            else
              (let normalized = normalizeWaveform rawWaveform;
                   dcRemoved = removeDCOffset normalized;
                   finalWaveform = movingAverage dcRemoved 5
               in Inr finalWaveform)))"

text \<open>
  The parts of an extraction by name: the blurred field, the threshold and the raw
  waveform, as \<open>extractWaveform\<close> computes them after its size check.
\<close>

definition smoothedField :: "PixelBuffer \<Rightarrow> Region \<Rightarrow> real list" where
  "smoothedField imageData roiBounds =
     boxBlur (stretchContrast (toGrayscale (cropToROI imageData roiBounds)))
       (nat (roi_width roiBounds)) (nat (roi_height roiBounds)) 3"

definition rawWaveformOf :: "PixelBuffer \<Rightarrow> Region \<Rightarrow> real list" where
  "rawWaveformOf imageData roiBounds =
     findBoundaries (smoothedField imageData roiBounds) (nat (roi_width roiBounds))
       (nat (roi_height roiBounds)) (real (otsuThreshold (smoothedField imageData roiBounds)))"

text \<open>
  A well-formed buffer holds four bytes per pixel; a region is inside it when the
  rectangle does not leave the image.
\<close>

definition wellFormed :: "PixelBuffer \<Rightarrow> bool" where
  "wellFormed imageData \<longleftrightarrow>
     length (img_data imageData) = 4 * img_width imageData * img_height imageData"

definition inBounds :: "PixelBuffer \<Rightarrow> Region \<Rightarrow> bool" where
  "inBounds imageData roiBounds \<longleftrightarrow>
     0 \<le> roi_x roiBounds \<and> 0 \<le> roi_y roiBounds
     \<and> roi_x roiBounds + roi_width roiBounds \<le> int (img_width imageData)
     \<and> roi_y roiBounds + roi_height roiBounds \<le> int (img_height imageData)"

section \<open>Notions of the specification\<close>

text \<open>
  The description of the scan in the specification's words, on one row alone:
  \<open>firstIndex P row start\<close> is the index of the first sample from \<open>start\<close> on that
  satisfies \<open>P\<close>. The left edge is the first light sample and the right edge the first
  subsequent sample at or below the threshold, or the row's width; a row without a light
  sample is scanned with the polarity inverted.
\<close>

definition firstIndex :: "(real \<Rightarrow> bool) \<Rightarrow> real list \<Rightarrow> nat \<Rightarrow> nat option" where
  "firstIndex P row start = List.find (\<lambda>i. P (row ! i)) [start..<length row]"

definition specEdges :: "real list \<Rightarrow> real \<Rightarrow> (nat \<times> nat) option" where
  "specEdges row threshold =
     (case firstIndex (\<lambda>v. v > threshold) row 0 of
        Some leftEdge \<Rightarrow>
          Some (leftEdge, case firstIndex (\<lambda>v. v \<le> threshold) row leftEdge of
                            Some rightEdge \<Rightarrow> rightEdge | None \<Rightarrow> length row)
      | None \<Rightarrow>
          (case firstIndex (\<lambda>v. v \<le> threshold) row 0 of
             Some leftEdge \<Rightarrow>
               Some (leftEdge, case firstIndex (\<lambda>v. v > threshold) row leftEdge of
                                 Some rightEdge \<Rightarrow> rightEdge | None \<Rightarrow> length row)
           | None \<Rightarrow> None))"

text \<open>The samples of row \<open>y\<close> of a field.\<close>

definition rowOf :: "real list \<Rightarrow> nat \<Rightarrow> nat \<Rightarrow> real list" where
  "rowOf data width y = take width (drop (y * width) data)"

text \<open>
  The quantities of the threshold selector in the specification's words: the weight of
  the class of bins up to \<open>t\<close> is the cumulative pixel count, the weight of the other
  class is the rest, the class means are the cumulative weighted sums divided by the
  weights, and the between-class variance of the candidate \<open>t\<close> is the product of both
  weights and the squared difference of the means, as the code computes it. For a
  candidate with an empty class the weight of that class is a factor 0 of the product,
  so that its variance is 0 whatever the quotient by that weight is taken to be.
\<close>

definition cumWeight :: "int list \<Rightarrow> nat \<Rightarrow> int" where
  "cumWeight histogram t = (\<Sum>i<t. histogram ! i)"

definition cumSum :: "int list \<Rightarrow> nat \<Rightarrow> int" where
  "cumSum histogram t = (\<Sum>i<t. int i * histogram ! i)"

definition classVariance :: "int list \<Rightarrow> nat \<Rightarrow> real" where
  "classVariance histogram t =
     (let wB = cumWeight histogram (t + 1);
          wF = cumWeight histogram 256 - wB;
          mB = real_of_int (cumSum histogram (t + 1)) / real_of_int wB;
          mF = real_of_int (cumSum histogram 256 - cumSum histogram (t + 1)) / real_of_int wF
      in real_of_int wB * real_of_int wF * (mB - mF) * (mB - mF))"

definition betweenClassVariance :: "real list \<Rightarrow> nat \<Rightarrow> real" where
  "betweenClassVariance grayscale t = classVariance (buildHistogram grayscale) t"

text \<open>
  A bimodal histogram: \<open>lowTop\<close> is the highest occupied bin of the lower cluster and
  \<open>highBottom\<close> the lowest occupied bin of the upper cluster, and the bins between
  them, at least one, are empty.
\<close>

definition bimodal :: "real list \<Rightarrow> nat \<Rightarrow> nat \<Rightarrow> bool" where
  "bimodal grayscale lowTop highBottom \<longleftrightarrow>
     lowTop + 1 < highBottom
     \<and> (\<exists>v\<in>set grayscale. binOf v = lowTop) \<and> (\<exists>v\<in>set grayscale. binOf v = highBottom)
     \<and> (\<forall>v\<in>set grayscale. binOf v \<le> lowTop \<or> highBottom \<le> binOf v)"

text \<open>
  A region is uniform when the extractor copies the same four bytes for every pixel of
  it.
\<close>

definition uniformRegion :: "PixelBuffer \<Rightarrow> Region \<Rightarrow> bool" where
  "uniformRegion imageData bounds \<longleftrightarrow>
     (\<exists>p. \<forall>row<nat (roi_height bounds). \<forall>col<nat (roi_width bounds).
        cropPixel imageData bounds row col = p)"

section \<open>Auxiliary notions\<close>

text \<open>
  The kernel loops of the blur add up the samples at the positions of the kernel that lie
  inside the field and count them: \<open>tapsInRow\<close> are the column offsets of one kernel
  row that pass the test of the loop body, \<open>windowTaps\<close> the positions of a smoothing
  window that pass the test of the moving average.
\<close>

definition inField :: "nat \<Rightarrow> nat \<Rightarrow> int \<Rightarrow> int \<Rightarrow> bool" where
  "inField width height ny nx \<longleftrightarrow> ny \<ge> 0 \<and> ny < int height \<and> nx \<ge> 0 \<and> nx < int width"

definition tapsInRow :: "nat \<Rightarrow> nat \<Rightarrow> nat \<Rightarrow> nat \<Rightarrow> int \<Rightarrow> int list \<Rightarrow> int list" where
  "tapsInRow width height y x ky kxs =
     filter (\<lambda>kx. inField width height (int y + ky) (int x + kx)) kxs"

definition windowTaps :: "real list \<Rightarrow> int list \<Rightarrow> int list" where
  "windowTaps data js = filter (\<lambda>j. j \<ge> 0 \<and> j < int (length data)) js"

text \<open>A histogram holds counts: no bin is negative.\<close>

definition counts :: "int list \<Rightarrow> bool" where
  "counts histogram \<longleftrightarrow> (\<forall>i<256. 0 \<le> histogram ! i)"

text \<open>The brightness of one pixel of four bytes, as the luminance mapper weighs it.\<close>

definition luminance :: "8 word list \<Rightarrow> real" where
  "luminance p = 299 / 1000 * real (unat (p ! 0)) + 587 / 1000 * real (unat (p ! 1))
                   + 114 / 1000 * real (unat (p ! 2))"

text \<open>A field written row by row from a function of the row and the column.\<close>

definition grid :: "(nat \<Rightarrow> nat \<Rightarrow> real) \<Rightarrow> nat \<Rightarrow> nat \<Rightarrow> real list" where
  "grid f width height = concat (map (\<lambda>y. map (\<lambda>x. f y x) [0..<width]) [0..<height])"

section \<open>Example inputs\<close>

text \<open>
  A black and transparent 20 by 20 image, a mid-gray one, and a mid-gray patch of 4 by 4
  pixels, with the regions that cover them.
\<close>

definition blankImage :: PixelBuffer where
  "blankImage = \<lparr>img_data = replicate 1600 0, img_width = 20, img_height = 20\<rparr>"

definition grayImage :: PixelBuffer where
  "grayImage = \<lparr>img_data = replicate 1600 128, img_width = 20, img_height = 20\<rparr>"

definition wholeRegion :: Region where
  "wholeRegion = \<lparr>roi_x = 0, roi_y = 0, roi_width = 20, roi_height = 20\<rparr>"

definition grayPatch :: PixelBuffer where
  "grayPatch = \<lparr>img_data = replicate 64 128, img_width = 4, img_height = 4\<rparr>"

definition patchRegion :: Region where
  "patchRegion = \<lparr>roi_x = 0, roi_y = 0, roi_width = 4, roi_height = 4\<rparr>"

text \<open>
  Two regions that leave the 20 by 20 image: one overlaps its lower right quarter, the
  other lies entirely outside.
\<close>

definition offRegion :: Region where
  "offRegion = \<lparr>roi_x = 10, roi_y = 10, roi_width = 20, roi_height = 20\<rparr>"

definition farRegion :: Region where
  "farRegion = \<lparr>roi_x = 100, roi_y = - 50, roi_width = 30, roi_height = 20\<rparr>"

text \<open>
  A 20 by 20 image, opaque black except for one white pixel in row 10, column 10, and
  what the stages make of it: its luminance field, the value of the blurred field at
  row \<open>y\<close> and column \<open>x\<close>, the raw waveform and the returned waveform.
\<close>

definition dotPixel :: "nat \<Rightarrow> 8 word list" where
  "dotPixel i = (if i = 210 then [255, 255, 255, 255] else [0, 0, 0, 255])"

definition dotData :: "8 word list" where
  "dotData = concat (map dotPixel [0..<400])"

definition dotImage :: PixelBuffer where
  "dotImage = \<lparr>img_data = dotData, img_width = 20, img_height = 20\<rparr>"

definition dotGray :: "real list" where
  "dotGray = toGrayscale (cropToROI dotImage wholeRegion)"

definition dotBlur :: "nat \<Rightarrow> nat \<Rightarrow> real" where
  "dotBlur y x = (if 7 \<le> y \<and> y \<le> 13 \<and> 7 \<le> x \<and> x \<le> 13 then 255 / 49 else 0)"

definition dotRaw :: "real list" where
  "dotRaw = [1, 1, 1, 1, 1, 1, 1, 7 / 20, 7 / 20, 7 / 20, 7 / 20, 7 / 20, 7 / 20, 7 / 20,
             1, 1, 1, 1, 1, 1]"

definition dotWaveform :: "real list" where
  "dotWaveform = [7 / 10, 7 / 10, 7 / 10, 7 / 10, 7 / 10, 3 / 10, - (1 / 10), - (1 / 2),
                  - (9 / 10), - (13 / 10), - (13 / 10), - (13 / 10), - (9 / 10), - (1 / 2),
                  - (1 / 10), 3 / 10, 7 / 10, 7 / 10, 7 / 10, 7 / 10]"

text \<open>
  A field of seventeen pixels with eight pixels in bin 0, eight in bin 1 and one in
  bin 3.
\<close>

definition lopsided :: "real list" where
  "lopsided = [0, 0, 0, 0, 0, 0, 0, 0, 1, 1, 1, 1, 1, 1, 1, 1, 3]"

section \<open>Outcomes and lengths\<close>

lemma extractWaveform_stages:
  "extractWaveform imageData roiBounds =
     (if roi_width roiBounds < 20 \<or> roi_height roiBounds < 20 then Inl RegionTooSmall
      else if standardDeviation (rawWaveformOf imageData roiBounds) < 1 / 100 then Inl NoVariation
      else Inr (movingAverage (removeDCOffset (normalizeWaveform
                  (rawWaveformOf imageData roiBounds))) 5))"
  by (simp add: extractWaveform_def rawWaveformOf_def smoothedField_def Let_def)

lemma length_findBoundaries [simp]: "length (findBoundaries data width height threshold) = height"
  by (simp add: findBoundaries_def)

lemma length_normalizeWaveform [simp]: "length (normalizeWaveform data) = length data"
  by (simp add: normalizeWaveform_def Let_def split: list.splits)

lemma length_removeDCOffset [simp]: "length (removeDCOffset data) = length data"
  by (simp add: removeDCOffset_def Let_def)

lemma length_movingAverage [simp]: "length (movingAverage data windowSize) = length data"
  by (simp add: movingAverage_def Let_def)

lemma length_rawWaveformOf [simp]:
  "length (rawWaveformOf imageData roiBounds) = nat (roi_height roiBounds)"
  by (simp add: rawWaveformOf_def)

lemma extractWaveform_large:
  assumes "20 \<le> roi_width roiBounds" and "20 \<le> roi_height roiBounds"
  shows "extractWaveform imageData roiBounds = Inl NoVariation
         \<or> (\<exists>waveform. extractWaveform imageData roiBounds = Inr waveform
                \<and> length waveform = nat (roi_height roiBounds))"
  using assms by (simp add: extractWaveform_stages)

text \<open>
  C1: for a region of width and height at least 20 inside the buffer, the extraction
  returns a waveform with exactly one sample per row of the region, or fails with
  \<open>NoVariation\<close>; there is no other outcome.
\<close>

theorem extractWaveform_waveform_or_NoVariation:
  assumes "wellFormed imageData" and "inBounds imageData roiBounds"
    and "20 \<le> roi_width roiBounds" and "20 \<le> roi_height roiBounds"
  shows "extractWaveform imageData roiBounds = Inl NoVariation
         \<or> (\<exists>waveform. extractWaveform imageData roiBounds = Inr waveform
                \<and> length waveform = nat (roi_height roiBounds))"
  using assms(3,4) by (rule extractWaveform_large)

theorem extractWaveform_waveform_or_NoVariation_witness:
  "wellFormed blankImage \<and> inBounds blankImage wholeRegion
   \<and> 20 \<le> roi_width wholeRegion \<and> 20 \<le> roi_height wholeRegion
   \<and> (extractWaveform blankImage wholeRegion = Inl NoVariation
        \<or> (\<exists>waveform. extractWaveform blankImage wholeRegion = Inr waveform
               \<and> length waveform = nat (roi_height wholeRegion)))"
proof -
  have wf: "wellFormed blankImage"
    by (simp add: wellFormed_def blankImage_def)
  have inb: "inBounds blankImage wholeRegion"
    by (simp add: inBounds_def blankImage_def wholeRegion_def)
  have w: "20 \<le> roi_width wholeRegion" and h: "20 \<le> roi_height wholeRegion"
    by (simp_all add: wholeRegion_def)
  show ?thesis
    using wf inb w h extractWaveform_waveform_or_NoVariation [OF wf inb w h] by simp
qed

text \<open>
  C8: a region of width or height below 20 fails with \<open>RegionTooSmall\<close> whatever the
  buffer holds: the size check comes before any access to the buffer, and two buffers
  give the same outcome.
\<close>

theorem extractWaveform_RegionTooSmall:
  assumes "roi_width roiBounds < 20 \<or> roi_height roiBounds < 20"
  shows "extractWaveform imageData roiBounds = Inl RegionTooSmall
         \<and> extractWaveform imageData' roiBounds = extractWaveform imageData roiBounds"
  using assms by (auto simp add: extractWaveform_def)

theorem extractWaveform_RegionTooSmall_witness:
  "(roi_width \<lparr>roi_x = 0, roi_y = 0, roi_width = 19, roi_height = 40\<rparr> < 20
     \<or> roi_height \<lparr>roi_x = 0, roi_y = 0, roi_width = 19, roi_height = 40\<rparr> < 20)
   \<and> extractWaveform blankImage \<lparr>roi_x = 0, roi_y = 0, roi_width = 19, roi_height = 40\<rparr>
       = Inl RegionTooSmall
   \<and> extractWaveform \<lparr>img_data = [], img_width = 0, img_height = 0\<rparr>
         \<lparr>roi_x = 0, roi_y = 0, roi_width = 19, roi_height = 40\<rparr>
       = extractWaveform blankImage \<lparr>roi_x = 0, roi_y = 0, roi_width = 19, roi_height = 40\<rparr>"
proof -
  have small: "roi_width \<lparr>roi_x = 0, roi_y = 0, roi_width = 19, roi_height = 40\<rparr> < 20
     \<or> roi_height \<lparr>roi_x = 0, roi_y = 0, roi_width = 19, roi_height = 40\<rparr> < 20"
    by simp
  show ?thesis
    using small extractWaveform_RegionTooSmall [OF small, of blankImage
        "\<lparr>img_data = [], img_width = 0, img_height = 0\<rparr>"]
    by simp
qed

section \<open>The boundary scanner and its description\<close>

lemma find_upt_Some:
  "List.find P [a..<b] = Some i \<Longrightarrow> a \<le> i \<and> i < b \<and> P i"
  by (auto simp add: find_Some_iff)

lemma find_upt_None: "List.find P [a..<b] = None \<longleftrightarrow> (\<forall>i. a \<le> i \<and> i < b \<longrightarrow> \<not> P i)"
  by (auto simp add: find_None_iff)

lemma edgeScan_found:
  "leftEdge \<noteq> - 1 \<Longrightarrow>
   edgeScan lit data rowStart width x leftEdge =
     (leftEdge, case List.find (\<lambda>i. \<not> lit (data ! (rowStart + i))) [x..<width] of
                  None \<Rightarrow> - 1 | Some r \<Rightarrow> int r)"
proof (induction lit data rowStart width x leftEdge rule: edgeScan.induct)
  case (1 lit data rowStart width x leftEdge)
  show ?case
  proof (cases "x < width")
    case False
    then show ?thesis by (subst edgeScan.simps) simp
  next
    case True
    then have upt: "[x..<width] = x # [x + 1..<width]"
      by (simp add: upt_conv_Cons)
    show ?thesis
    proof (cases "lit (data ! (rowStart + x))")
      case True
      with 1 \<open>x < width\<close> show ?thesis
        by (subst edgeScan.simps) (simp add: upt Let_def)
    next
      case False
      with 1 \<open>x < width\<close> show ?thesis
        by (subst edgeScan.simps) (simp add: upt Let_def)
    qed
  qed
qed

lemma edgeScan_search:
  "edgeScan lit data rowStart width x (- 1) =
     (case List.find (\<lambda>i. lit (data ! (rowStart + i))) [x..<width] of
        None \<Rightarrow> (- 1, - 1)
      | Some l \<Rightarrow> (int l, case List.find (\<lambda>i. \<not> lit (data ! (rowStart + i))) [l..<width] of
                            None \<Rightarrow> - 1 | Some r \<Rightarrow> int r))"
proof (induction "width - x" arbitrary: x)
  case 0
  then show ?case by (subst edgeScan.simps) simp
next
  case (Suc n)
  then have lt: "x < width" by simp
  then have upt: "[x..<width] = x # [x + 1..<width]"
    by (simp add: upt_conv_Cons)
  show ?case
  proof (cases "lit (data ! (rowStart + x))")
    case True
    have "edgeScan lit data rowStart width x (- 1)
            = edgeScan lit data rowStart width (x + 1) (int x)"
      using True lt by (subst edgeScan.simps) (simp add: Let_def)
    also have "\<dots> = (int x, case List.find (\<lambda>i. \<not> lit (data ! (rowStart + i))) [x + 1..<width] of
                  None \<Rightarrow> - 1 | Some r \<Rightarrow> int r)"
      by (rule edgeScan_found) simp
    finally show ?thesis using True by (simp add: upt)
  next
    case False
    have "edgeScan lit data rowStart width x (- 1)
            = edgeScan lit data rowStart width (x + 1) (- 1)"
      using False lt by (subst edgeScan.simps) (simp add: Let_def)
    also have "\<dots> = (case List.find (\<lambda>i. lit (data ! (rowStart + i))) [x + 1..<width] of
        None \<Rightarrow> (- 1, - 1)
      | Some l \<Rightarrow> (int l, case List.find (\<lambda>i. \<not> lit (data ! (rowStart + i))) [l..<width] of
                            None \<Rightarrow> - 1 | Some r \<Rightarrow> int r))"
      using Suc by (intro Suc.hyps(1)) simp
    finally show ?thesis using False by (simp add: upt)
  qed
qed

lemma length_rowOf: "y * width + width \<le> length data \<Longrightarrow> length (rowOf data width y) = width"
  by (simp add: rowOf_def)

lemma nth_rowOf:
  "y * width + width \<le> length data \<Longrightarrow> i < width \<Longrightarrow> rowOf data width y ! i = data ! (y * width + i)"
  by (simp add: rowOf_def)

lemma firstIndex_rowOf:
  assumes "y * width + width \<le> length data"
  shows "firstIndex P (rowOf data width y) start
           = List.find (\<lambda>i. P (data ! (y * width + i))) [start..<width]"
  unfolding firstIndex_def length_rowOf [OF assms]
  by (rule find_cong) (simp_all add: nth_rowOf [OF assms])

lemma rowEdges_specEdges:
  assumes "y * width + width \<le> length data"
  shows "rowEdges data width threshold y =
           (case specEdges (rowOf data width y) threshold of
              None \<Rightarrow> (- 1, - 1) | Some (l, r) \<Rightarrow> (int l, int r))"
proof -
  have neg: "\<And>v. (\<not> v > threshold) = (v \<le> threshold)" "\<And>v. (\<not> v \<le> threshold) = (v > threshold)"
    by auto
  show ?thesis
    by (auto simp add: rowEdges_def specEdges_def firstIndex_rowOf [OF assms]
        length_rowOf [OF assms] neg edgeScan_search closeEdge_def Let_def
        split: option.splits dest!: find_upt_Some)
qed

lemma specEdges_bounds:
  assumes "specEdges row threshold = Some (l, r)"
  shows "l < r \<and> r \<le> length row"
  using assms
  by (auto simp add: specEdges_def firstIndex_def split: option.splits dest!: find_upt_Some
      intro: le_neq_implies_less)

lemma specEdges_Some:
  assumes "row \<noteq> []"
  shows "\<exists>l r. specEdges row threshold = Some (l, r)"
proof (cases "firstIndex (\<lambda>v. v > threshold) row 0")
  case (Some l)
  then show ?thesis by (simp add: specEdges_def)
next
  case None
  then have "\<not> row ! 0 > threshold"
    using assms by (auto simp add: firstIndex_def find_upt_None)
  then have "firstIndex (\<lambda>v. v \<le> threshold) row 0 \<noteq> None"
    using assms by (auto simp add: firstIndex_def find_upt_None)
  with None show ?thesis by (auto simp add: specEdges_def)
qed

lemma row_in_field:
  assumes "length data = width * height" and "y < height"
  shows "y * width + width \<le> length data"
proof -
  have "Suc y * width \<le> height * width"
    using assms(2) by (intro mult_le_mono1) simp
  then show ?thesis using assms(1) by (simp add: mult.commute)
qed

lemma rowAmplitude_found:
  assumes "y * width + width \<le> length data"
    and "specEdges (rowOf data width y) threshold = Some (l, r)"
  shows "rowAmplitude data width threshold y = (real r - real l) / real width"
proof -
  have "rowEdges data width threshold y = (int l, int r)"
    using assms by (simp add: rowEdges_specEdges)
  moreover have "l < r" using specEdges_bounds [OF assms(2)] by simp
  ultimately show ?thesis
    by (simp add: rowAmplitude_def Let_def)
qed

text \<open>
  C4: the scanner works on each row alone. The edges it finds in row \<open>y\<close> are those of
  the description applied to the samples of that row (first sample above the threshold,
  first subsequent sample at or below it or else the row's width, and the same with
  inverted polarity when no sample is above the threshold), and with an edge pair the
  raw amplitude of the row is \<open>(rightEdge - leftEdge) / width\<close>.
\<close>

theorem findBoundaries_scans_rows:
  assumes "length data = width * height" and "y < height"
  shows "rowEdges data width threshold y =
           (case specEdges (rowOf data width y) threshold of
              None \<Rightarrow> (- 1, - 1) | Some (l, r) \<Rightarrow> (int l, int r))
         \<and> (\<forall>l r. specEdges (rowOf data width y) threshold = Some (l, r) \<longrightarrow>
               findBoundaries data width height threshold ! y = (real r - real l) / real width)"
  using assms row_in_field [OF assms]
  by (simp add: rowEdges_specEdges findBoundaries_def rowAmplitude_found)

theorem findBoundaries_scans_rows_witness:
  "length [1, 5, 2, 0, 0, 0 :: real] = 3 * 2 \<and> (1 :: nat) < 2
   \<and> specEdges (rowOf [1, 5, 2, 0, 0, 0] 3 1) 3 = Some (0, 3)
   \<and> rowEdges [1, 5, 2, 0, 0, 0] 3 3 1 = (0, 3)
   \<and> findBoundaries [1, 5, 2, 0, 0, 0] 3 2 3 ! 1 = 1"
proof -
  have len: "length [1, 5, 2, 0, 0, 0 :: real] = 3 * 2" by simp
  have y: "(1 :: nat) < 2" by simp
  have edges: "specEdges (rowOf [1, 5, 2, 0, 0, 0] 3 1) 3 = Some (0, 3)"
    by (simp add: rowOf_def specEdges_def firstIndex_def upt_rec)
  show ?thesis
    using len y edges findBoundaries_scans_rows [OF len y, of 3] by simp
qed

text \<open>
  C9: in a row of positive width one of the two passes finds a left edge, because a
  sample that is not above the threshold is at or below it. The fallback branch is
  never taken, and the raw amplitude \<open>(rightEdge - leftEdge) / width\<close> is greater than
  0 and at most 1.
\<close>

theorem rowEdges_always_found:
  assumes "length data = width * height" and "y < height" and "0 < width"
  shows "fst (rowEdges data width threshold y) \<noteq> - 1
         \<and> snd (rowEdges data width threshold y) \<noteq> - 1
         \<and> findBoundaries data width height threshold ! y
             = real_of_int (snd (rowEdges data width threshold y)
                             - fst (rowEdges data width threshold y)) / real width
         \<and> 0 < findBoundaries data width height threshold ! y
         \<and> findBoundaries data width height threshold ! y \<le> 1"
proof -
  have row: "y * width + width \<le> length data"
    using assms(1,2) by (rule row_in_field)
  have "rowOf data width y \<noteq> []"
    using length_rowOf [OF row] assms(3) by auto
  then obtain l r where lr: "specEdges (rowOf data width y) threshold = Some (l, r)"
    using specEdges_Some by blast
  have bounds: "l < r" "r \<le> width"
    using specEdges_bounds [OF lr] length_rowOf [OF row] by simp_all
  have edges: "rowEdges data width threshold y = (int l, int r)"
    using lr row by (simp add: rowEdges_specEdges)
  have amp: "findBoundaries data width height threshold ! y = (real r - real l) / real width"
    using assms(2) rowAmplitude_found [OF row lr] by (simp add: findBoundaries_def)
  have "(real r - real l) / real width \<le> 1"
    using bounds assms(3) by (simp add: divide_le_eq)
  moreover have "0 < (real r - real l) / real width"
    using bounds assms(3) by simp
  ultimately show ?thesis
    using edges amp bounds by simp
qed

theorem rowEdges_always_found_witness:
  "length [1, 5, 2, 0, 0, 0 :: real] = 3 * 2 \<and> (0 :: nat) < 2 \<and> (0 :: nat) < 3
   \<and> fst (rowEdges [1, 5, 2, 0, 0, 0] 3 3 0) \<noteq> - 1
   \<and> snd (rowEdges [1, 5, 2, 0, 0, 0] 3 3 0) \<noteq> - 1
   \<and> 0 < findBoundaries [1, 5, 2, 0, 0, 0] 3 2 3 ! 0
   \<and> findBoundaries [1, 5, 2, 0, 0, 0] 3 2 3 ! 0 \<le> 1"
proof -
  have len: "length [1, 5, 2, 0, 0, 0 :: real] = 3 * 2" by simp
  have y: "(0 :: nat) < 2" and w: "(0 :: nat) < 3" by simp_all
  show ?thesis
    using len y w rowEdges_always_found [OF len y w, of 3] by simp
qed

section \<open>The blur as an average\<close>

lemma fold_blurTap_row:
  "fold (\<lambda>kx. blurTap data width height y x ky kx) kxs acc =
     (fst acc + (\<Sum>kx\<leftarrow>tapsInRow width height y x ky kxs.
                    data ! nat ((int y + ky) * int width + (int x + kx))),
      snd acc + length (tapsInRow width height y x ky kxs))"
  by (induction kxs arbitrary: acc)
    (simp_all add: blurTap_def tapsInRow_def inField_def Let_def)

lemma fold_blurTap:
  "fold (\<lambda>ky. fold (\<lambda>kx. blurTap data width height y x ky kx) kxs) kys acc =
     (fst acc + (\<Sum>ky\<leftarrow>kys. \<Sum>kx\<leftarrow>tapsInRow width height y x ky kxs.
                    data ! nat ((int y + ky) * int width + (int x + kx))),
      snd acc + (\<Sum>ky\<leftarrow>kys. length (tapsInRow width height y x ky kxs)))"
  by (induction kys arbitrary: acc) (simp_all add: fold_blurTap_row)

lemma blurAt_sums:
  "blurAt data width height radius y x =
     (\<Sum>ky\<leftarrow>[- int radius..int radius].
        \<Sum>kx\<leftarrow>tapsInRow width height y x ky [- int radius..int radius].
          data ! nat ((int y + ky) * int width + (int x + kx)))
     / real (\<Sum>ky\<leftarrow>[- int radius..int radius].
               length (tapsInRow width height y x ky [- int radius..int radius]))"
  by (simp add: blurAt_def fold_blurTap Let_def)

lemma inField_index:
  assumes "inField width height ny nx"
  shows "nat (ny * int width + nx) < width * height"
proof -
  define a where "a = nat ny"
  define b where "b = nat nx"
  have ab: "ny = int a" "nx = int b" "a < height" "b < width"
    using assms by (auto simp add: inField_def a_def b_def nat_less_iff)
  have "a * width + b < a * width + width" using ab by simp
  also have "\<dots> = Suc a * width" by simp
  also have "\<dots> \<le> height * width" using ab by (intro mult_le_mono1) simp
  finally have "a * width + b < width * height" by (simp add: mult.commute)
  moreover have "nat (ny * int width + nx) = a * width + b"
    unfolding ab by (simp add: nat_add_distrib nat_mult_distrib)
  ultimately show ?thesis by simp
qed

lemma sum_list_bounds:
  fixes f :: "'a \<Rightarrow> real"
  assumes "\<And>a. a \<in> set as \<Longrightarrow> lo \<le> f a \<and> f a \<le> hi"
  shows "real (length as) * lo \<le> (\<Sum>a\<leftarrow>as. f a) \<and> (\<Sum>a\<leftarrow>as. f a) \<le> real (length as) * hi"
  using assms
proof (induction as)
  case Nil
  then show ?case by simp
next
  case (Cons a as)
  have "lo \<le> f a" "f a \<le> hi" using Cons.prems by simp_all
  moreover have "real (length as) * lo \<le> (\<Sum>a\<leftarrow>as. f a)"
    "(\<Sum>a\<leftarrow>as. f a) \<le> real (length as) * hi"
    using Cons by simp_all
  ultimately show ?case by (simp add: algebra_simps)
qed

lemma taps_centre:
  assumes "y < height" and "x < width"
  shows "0 < (\<Sum>ky\<leftarrow>[- int radius..int radius].
               length (tapsInRow width height y x ky [- int radius..int radius]))"
proof -
  have zero: "(0::int) \<in> set [- int radius..int radius]" by simp
  have "0 \<in> set (tapsInRow width height y x 0 [- int radius..int radius])"
    using assms by (simp add: tapsInRow_def inField_def)
  then have "0 < length (tapsInRow width height y x 0 [- int radius..int radius])"
    by (cases "tapsInRow width height y x 0 [- int radius..int radius]") auto
  moreover have "length (tapsInRow width height y x 0 [- int radius..int radius])
      \<le> (\<Sum>ky\<leftarrow>[- int radius..int radius].
               length (tapsInRow width height y x ky [- int radius..int radius]))"
    by (rule member_le_sum_list) (use zero in auto)
  ultimately show ?thesis by linarith
qed

lemma blurAt_bounds:
  assumes len: "length data = width * height"
    and bnd: "\<And>v. v \<in> set data \<Longrightarrow> lo \<le> v \<and> v \<le> hi"
    and "y < height" and "x < width"
  shows "lo \<le> blurAt data width height radius y x \<and> blurAt data width height radius y x \<le> hi"
proof -
  let ?kys = "[- int radius..int radius]"
  let ?taps = "\<lambda>ky. tapsInRow width height y x ky ?kys"
  let ?val = "\<lambda>ky kx. data ! nat ((int y + ky) * int width + (int x + kx))"
  let ?n = "\<Sum>ky\<leftarrow>?kys. length (?taps ky)"
  have inner: "real (length (?taps ky)) * lo \<le> (\<Sum>kx\<leftarrow>?taps ky. ?val ky kx)
       \<and> (\<Sum>kx\<leftarrow>?taps ky. ?val ky kx) \<le> real (length (?taps ky)) * hi" for ky
  proof (rule sum_list_bounds)
    fix kx assume "kx \<in> set (?taps ky)"
    then have "inField width height (int y + ky) (int x + kx)"
      by (simp add: tapsInRow_def)
    then have "nat ((int y + ky) * int width + (int x + kx)) < length data"
      using inField_index len by simp
    then show "lo \<le> ?val ky kx \<and> ?val ky kx \<le> hi"
      using bnd nth_mem by blast
  qed
  have lower: "real ?n * lo \<le> (\<Sum>ky\<leftarrow>?kys. \<Sum>kx\<leftarrow>?taps ky. ?val ky kx)"
  proof -
    have "real ?n * lo = (\<Sum>ky\<leftarrow>?kys. real (length (?taps ky)) * lo)"
      by (simp add: sum_list_mult_const [symmetric] sum_list_of_nat [symmetric] comp_def)
    also have "\<dots> \<le> (\<Sum>ky\<leftarrow>?kys. \<Sum>kx\<leftarrow>?taps ky. ?val ky kx)"
      by (rule sum_list_mono) (use inner in blast)
    finally show ?thesis .
  qed
  have upper: "(\<Sum>ky\<leftarrow>?kys. \<Sum>kx\<leftarrow>?taps ky. ?val ky kx) \<le> real ?n * hi"
  proof -
    have "(\<Sum>ky\<leftarrow>?kys. \<Sum>kx\<leftarrow>?taps ky. ?val ky kx)
            \<le> (\<Sum>ky\<leftarrow>?kys. real (length (?taps ky)) * hi)"
      by (rule sum_list_mono) (use inner in blast)
    also have "\<dots> = real ?n * hi"
      by (simp add: sum_list_mult_const [symmetric] sum_list_of_nat [symmetric] comp_def)
    finally show ?thesis .
  qed
  have pos: "0 < real ?n"
    using taps_centre [OF assms(3,4)] by simp
  show ?thesis
    unfolding blurAt_sums
    using lower upper pos by (simp add: pos_le_divide_eq pos_divide_le_eq mult.commute)
qed

lemma set_boxBlur:
  "set (boxBlur data width height radius)
     = {blurAt data width height radius y x | y x. y < height \<and> x < width}"
  by (fastforce simp add: boxBlur_def)

lemma length_boxBlur: "length (boxBlur data width height radius) = width * height"
  by (simp add: boxBlur_def length_concat comp_def sum_list_triv mult.commute)

section \<open>Ranges of the luminance and of the stretched field\<close>

lemma lowest_le: "lowest v vs \<le> v \<and> (\<forall>g\<in>set vs. lowest v vs \<le> g)"
  unfolding lowest_def
proof (induction vs arbitrary: v)
  case Nil
  show ?case by simp
next
  case (Cons a vs)
  from Cons [of "if a < v then a else v"] show ?case
    by (auto split: if_splits)
qed

lemma lowest_mem: "lowest v vs \<in> set (v # vs)"
  unfolding lowest_def
proof (induction vs arbitrary: v)
  case Nil
  show ?case by simp
next
  case (Cons a vs)
  from Cons [of "if a < v then a else v"] show ?case
    by (auto split: if_splits)
qed

lemma highest_ge: "v \<le> highest v vs \<and> (\<forall>g\<in>set vs. g \<le> highest v vs)"
  unfolding highest_def
proof (induction vs arbitrary: v)
  case Nil
  show ?case by simp
next
  case (Cons a vs)
  from Cons [of "if a > v then a else v"] show ?case
    by (auto split: if_splits)
qed

lemma highest_mem: "highest v vs \<in> set (v # vs)"
  unfolding highest_def
proof (induction vs arbitrary: v)
  case Nil
  show ?case by simp
next
  case (Cons a vs)
  from Cons [of "if a > v then a else v"] show ?case
    by (auto split: if_splits)
qed

lemma length_toGrayscale [simp]: "length (toGrayscale rgbaData) = length rgbaData div 4"
  by (simp add: toGrayscale_def)

lemma length_stretchContrast [simp]: "length (stretchContrast grayscale) = length grayscale"
  by (simp add: stretchContrast_def Let_def split: list.splits)

lemma byte_range: "0 \<le> real (unat (b :: 8 word)) \<and> real (unat b) \<le> 255"
proof -
  have "unat b < 2 ^ 8" using unsigned_less [of b] by simp
  then have "unat b \<le> 255" by simp
  then have "real (unat b) \<le> real 255" by (simp only: of_nat_le_iff)
  moreover have "0 \<le> real (unat b)" by (rule of_nat_0_le_iff)
  ultimately show ?thesis by (simp only: of_nat_numeral simp_thms)
qed

lemma toGrayscale_range:
  assumes "g \<in> set (toGrayscale rgbaData)"
  shows "0 \<le> g \<and> g \<le> 255"
proof -
  obtain i where g: "g = 299 / 1000 * real (unat (rgbaData ! (i * 4)))
             + 587 / 1000 * real (unat (rgbaData ! (i * 4 + 1)))
             + 114 / 1000 * real (unat (rgbaData ! (i * 4 + 2)))"
    using assms by (auto simp add: toGrayscale_def)
  show ?thesis
    unfolding g
    using byte_range [of "rgbaData ! (i * 4)"] byte_range [of "rgbaData ! (i * 4 + 1)"]
      byte_range [of "rgbaData ! (i * 4 + 2)"]
    by linarith
qed

lemma scale_unit:
  fixes t :: real
  shows "0 \<le> t \<Longrightarrow> t \<le> 1 \<Longrightarrow> 0 \<le> c \<Longrightarrow> 0 \<le> t * c \<and> t * c \<le> c"
  by (simp add: mult_left_le_one_le)

lemma stretchContrast_range:
  assumes "\<And>g. g \<in> set grayscale \<Longrightarrow> 0 \<le> g \<and> g \<le> 255"
    and "s \<in> set (stretchContrast grayscale)"
  shows "0 \<le> s \<and> s \<le> 255"
proof (cases grayscale)
  case Nil
  with assms(2) show ?thesis by (simp add: stretchContrast_def)
next
  case (Cons v vs)
  let ?mn = "lowest v vs" and ?mx = "highest v vs"
  show ?thesis
  proof (cases "?mx - ?mn = 0")
    case True
    then have "stretchContrast grayscale = grayscale"
      using Cons by (simp add: stretchContrast_def Let_def)
    with assms show ?thesis by simp
  next
    case False
    then obtain g where g: "g \<in> set grayscale" and s: "s = ((g - ?mn) / (?mx - ?mn)) * 255"
      using assms(2) Cons by (auto simp add: stretchContrast_def Let_def)
    have "?mn \<le> g" "g \<le> ?mx"
      using g Cons lowest_le [of v vs] highest_ge [of v vs] by auto
    moreover from this False have pos: "0 < ?mx - ?mn" by linarith
    ultimately have "0 \<le> (g - ?mn) / (?mx - ?mn)" "(g - ?mn) / (?mx - ?mn) \<le> 1"
      by (simp_all add: divide_le_eq)
    then have "0 \<le> ((g - ?mn) / (?mx - ?mn)) * 255 \<and> ((g - ?mn) / (?mx - ?mn)) * 255 \<le> 255"
      by (intro scale_unit) simp_all
    then show ?thesis by (simp only: s)
  qed
qed

text \<open>
  C10: on a field of \<open>width * height\<close> samples every output of the blur lies between
  the least and the greatest sample of the input, for every radius: it is the average of
  the samples inside the kernel, and the centre is always inside. A blurred field that
  was stretched from a luminance field therefore stays within 0 and 255.
\<close>

theorem boxBlur_between_min_max:
  assumes "length data = width * height"
  shows "(\<forall>v\<in>set (boxBlur data width height radius). Min (set data) \<le> v \<and> v \<le> Max (set data))
         \<and> (\<forall>rgbaData. data = stretchContrast (toGrayscale rgbaData) \<longrightarrow>
               (\<forall>v\<in>set (boxBlur data width height radius). 0 \<le> v \<and> v \<le> 255))"
proof (intro conjI ballI allI impI)
  fix v assume "v \<in> set (boxBlur data width height radius)"
  then obtain y x where v: "v = blurAt data width height radius y x" "y < height" "x < width"
    by (auto simp add: set_boxBlur)
  have "Min (set data) \<le> blurAt data width height radius y x
        \<and> blurAt data width height radius y x \<le> Max (set data)"
    by (rule blurAt_bounds [OF assms _ v(2,3)]) simp
  then show "Min (set data) \<le> v" "v \<le> Max (set data)"
    using v(1) by simp_all
next
  fix rgbaData v
  assume data: "data = stretchContrast (toGrayscale rgbaData)"
    and "v \<in> set (boxBlur data width height radius)"
  then obtain y x where v: "v = blurAt data width height radius y x" "y < height" "x < width"
    by (auto simp add: set_boxBlur)
  have "0 \<le> blurAt data width height radius y x \<and> blurAt data width height radius y x \<le> 255"
  proof (rule blurAt_bounds [OF assms _ v(2,3)])
    fix g assume "g \<in> set data"
    then show "0 \<le> g \<and> g \<le> 255"
      unfolding data using stretchContrast_range toGrayscale_range by blast
  qed
  then show "0 \<le> v" "v \<le> 255"
    using v(1) by simp_all
qed

theorem boxBlur_between_min_max_witness:
  "length [0, 255 :: real] = 2 * 1
   \<and> [0, 255] = stretchContrast (toGrayscale [0, 0, 0, 255, 255, 255, 255, 255])
   \<and> boxBlur [0, 255] 2 1 1 = [255 / 2, 255 / 2]
   \<and> Min (set [0, 255]) \<le> boxBlur [0, 255] 2 1 1 ! 0
   \<and> boxBlur [0, 255] 2 1 1 ! 0 \<le> Max (set [0, 255])
   \<and> 0 \<le> boxBlur [0, 255] 2 1 1 ! 0
   \<and> boxBlur [0, 255] 2 1 1 ! 0 \<le> 255"
proof -
  have len: "length [0, 255 :: real] = 2 * 1" by simp
  have stretched: "[0, 255] = stretchContrast (toGrayscale [0, 0, 0, 255, 255, 255, 255, 255])"
    by (simp add: stretchContrast_def toGrayscale_def lowest_def highest_def upt_rec)
  have blurred: "boxBlur [0, 255] 2 1 1 = [255 / 2, 255 / 2]"
    by (simp add: boxBlur_def blurAt_def blurTap_def upt_rec upto_rec1 Let_def)
  have "boxBlur [0, 255] 2 1 1 ! 0 \<in> set (boxBlur [0, 255] 2 1 1)"
    by (simp only: blurred) simp
  then show ?thesis
    using len stretched blurred boxBlur_between_min_max [OF len, of 1] by blast
qed

section \<open>The histogram\<close>

lemma binOf_less: "binOf g < 256"
  by (simp add: binOf_def)

lemma fold_histogram:
  assumes "length h = 256" and "b < 256"
  shows "length (fold (\<lambda>g histogram. histogram[binOf g := histogram ! binOf g + 1]) gs h) = 256
         \<and> fold (\<lambda>g histogram. histogram[binOf g := histogram ! binOf g + 1]) gs h ! b
             = h ! b + int (length (filter (\<lambda>g. binOf g = b) gs))"
  using assms
proof (induction gs arbitrary: h)
  case Nil
  then show ?case by simp
next
  case (Cons g gs)
  have len: "length (h[binOf g := h ! binOf g + 1]) = 256"
    using Cons.prems by simp
  show ?case
    using Cons.IH [OF len Cons.prems(2)] Cons.prems binOf_less [of g]
    by (auto simp add: nth_list_update)
qed

lemma length_buildHistogram: "length (buildHistogram grayscale) = 256"
  using fold_histogram [of "replicate 256 0" 0 grayscale] by (simp add: buildHistogram_def)

lemma nth_buildHistogram:
  "b < 256 \<Longrightarrow> buildHistogram grayscale ! b = int (length (filter (\<lambda>g. binOf g = b) grayscale))"
  using fold_histogram [of "replicate 256 0" b grayscale] by (simp add: buildHistogram_def)

lemma count_bins: "(\<Sum>b<256. length (filter (\<lambda>g. binOf g = b) gs)) = length gs"
proof (induction gs)
  case Nil
  show ?case by simp
next
  case (Cons g gs)
  have "(\<Sum>b<256. length (filter (\<lambda>g. binOf g = b) (g # gs)))
          = (\<Sum>b<256. (if b = binOf g then 1 else 0) + length (filter (\<lambda>g. binOf g = b) gs))"
    by (rule sum.cong) auto
  also have "\<dots> = (\<Sum>b<256. if b = binOf g then 1 else 0) + length gs"
    by (simp add: sum.distrib Cons.IH)
  also have "(\<Sum>b<256. if b = binOf g then 1 else 0) = (1::nat)"
    using binOf_less [of g] by simp
  finally show ?case by simp
qed

lemma sum_buildHistogram: "(\<Sum>b<256. buildHistogram grayscale ! b) = int (length grayscale)"
proof -
  have "(\<Sum>b<256. buildHistogram grayscale ! b)
          = (\<Sum>b<256. int (length (filter (\<lambda>g. binOf g = b) grayscale)))"
    by (rule sum.cong) (simp_all add: nth_buildHistogram)
  also have "\<dots> = int (\<Sum>b<256. length (filter (\<lambda>g. binOf g = b) grayscale))"
    by simp
  finally show ?thesis by (simp only: count_bins)
qed

lemma fold_add_sum:
  fixes f :: "nat \<Rightarrow> int"
  shows "fold (\<lambda>i s. s + f i) [0..<n] a = a + (\<Sum>i<n. f i)"
  by (induction n) simp_all

lemma weightedSum_sum: "weightedSum histogram = (\<Sum>i<256. int i * histogram ! i)"
  unfolding weightedSum_def by (simp only: fold_add_sum)

section \<open>Between-class variance and the scan\<close>

lemma cumWeight_Suc: "cumWeight h (Suc t) = cumWeight h t + h ! t"
  by (simp add: cumWeight_def)

lemma cumSum_Suc: "cumSum h (Suc t) = cumSum h t + int t * h ! t"
  by (simp add: cumSum_def)

lemma cumWeight_mono:
  assumes "counts h" and "s \<le> t" and "t \<le> 256"
  shows "cumWeight h s \<le> cumWeight h t"
  unfolding cumWeight_def
proof (rule sum_mono2)
  show "finite {..<t}" by simp
  show "{..<s} \<subseteq> {..<t}" using assms(2) by auto
  show "0 \<le> h ! b" if "b \<in> {..<t} - {..<s}" for b
    using that assms(1,3) by (simp add: counts_def)
qed

lemma cumWeight_nonneg:
  assumes "counts h" and "t \<le> 256"
  shows "0 \<le> cumWeight h t"
  using cumWeight_mono [OF assms(1) _ assms(2), of 0] by (simp add: cumWeight_def)

lemma classVariance_nonneg:
  assumes "counts h" and "s < 256"
  shows "0 \<le> classVariance h s"
proof -
  have "0 \<le> cumWeight h (s + 1)"
    using assms by (intro cumWeight_nonneg) simp_all
  moreover have "cumWeight h (s + 1) \<le> cumWeight h 256"
    using assms by (intro cumWeight_mono) simp_all
  ultimately show ?thesis
    by (simp add: classVariance_def Let_def mult.assoc)
qed

lemma classVariance_empty_below:
  assumes "cumWeight h (s + 1) = 0"
  shows "classVariance h s = 0"
  using assms by (simp add: classVariance_def Let_def)

lemma classVariance_empty_above:
  assumes "cumWeight h (s + 1) = cumWeight h 256"
  shows "classVariance h s = 0"
  using assms by (simp add: classVariance_def Let_def)

lemma scan_finish:
  assumes "counts h"
    and "\<forall>s<256. classVariance h s \<le> mv"
    and "(thr = 0 \<and> mv = 0) \<or> (thr < 256 \<and> classVariance h thr = mv)"
    and "\<forall>s<thr. classVariance h s < mv"
  shows "thr < 256 \<and> (\<forall>s<256. classVariance h s \<le> classVariance h thr)
         \<and> (\<forall>s<thr. classVariance h s < classVariance h thr)"
proof -
  have thr: "thr < 256" using assms(3) by auto
  have "classVariance h thr = mv"
  proof (cases "thr = 0 \<and> mv = 0")
    case True
    then have "classVariance h thr \<le> 0" using assms(2) by auto
    moreover have "0 \<le> classVariance h thr"
      using assms(1) thr by (rule classVariance_nonneg)
    ultimately show ?thesis using True by simp
  next
    case False
    then show ?thesis using assms(3) by blast
  qed
  then show ?thesis using assms(2,4) thr by simp
qed

lemma otsuScan_correct:
  assumes "counts h"
    and "t \<le> 256" and "wB = cumWeight h t" and "sumB = cumSum h t"
    and "0 \<le> mv" and "\<forall>s<t. classVariance h s \<le> mv"
    and "(thr = 0 \<and> mv = 0) \<or> (thr < t \<and> classVariance h thr = mv)"
    and "\<forall>s<thr. classVariance h s < mv"
  shows "otsuScan h (cumWeight h 256) (cumSum h 256) t sumB wB mv thr < 256
         \<and> (\<forall>s<256. classVariance h s
               \<le> classVariance h (otsuScan h (cumWeight h 256) (cumSum h 256) t sumB wB mv thr))
         \<and> (\<forall>s<otsuScan h (cumWeight h 256) (cumSum h 256) t sumB wB mv thr.
               classVariance h s
                 < classVariance h (otsuScan h (cumWeight h 256) (cumSum h 256) t sumB wB mv thr))"
  using assms(2-)
proof (induction "256 - t" arbitrary: t wB sumB mv thr)
  case 0
  then have t: "t = 256" by simp
  have "otsuScan h (cumWeight h 256) (cumSum h 256) t sumB wB mv thr = thr"
    using t by (subst otsuScan.simps) simp
  moreover have "thr < 256 \<and> (\<forall>s<256. classVariance h s \<le> classVariance h thr)
         \<and> (\<forall>s<thr. classVariance h s < classVariance h thr)"
    using assms(1) "0.prems" t by (intro scan_finish [where mv = mv]) auto
  ultimately show ?case by simp
next
  case (Suc n)
  then have t: "t < 256" by simp
  let ?wB = "wB + h ! t"
  have wB': "?wB = cumWeight h (t + 1)"
    using Suc.prems by (simp add: cumWeight_Suc)
  have ht: "0 \<le> h ! t" using assms(1) t by (simp add: counts_def)
  have wBnn: "0 \<le> wB"
    using Suc.prems assms(1) by (simp add: cumWeight_nonneg)
  show ?case
  proof (cases "?wB = 0")
    case True
    then have "h ! t = 0" using ht wBnn by linarith
    then have sumB': "sumB = cumSum h (t + 1)"
      using Suc.prems by (simp add: cumSum_Suc)
    have var: "classVariance h t = 0"
      using True wB' by (intro classVariance_empty_below) simp
    have step: "otsuScan h (cumWeight h 256) (cumSum h 256) t sumB wB mv thr
            = otsuScan h (cumWeight h 256) (cumSum h 256) (t + 1) sumB ?wB mv thr"
      using t True by (subst otsuScan.simps) (simp add: Let_def)
    have "\<forall>s<t + 1. classVariance h s \<le> mv"
      using Suc.prems var by (auto simp add: less_Suc_eq)
    moreover have "(thr = 0 \<and> mv = 0) \<or> (thr < t + 1 \<and> classVariance h thr = mv)"
      using Suc.prems by auto
    ultimately show ?thesis
      unfolding step
      using Suc.hyps(2) t wB' sumB' Suc.prems
      by (intro Suc.hyps(1)) simp_all
  next
    case False
    show ?thesis
    proof (cases "cumWeight h 256 - ?wB = 0")
      case True
      have brk: "otsuScan h (cumWeight h 256) (cumSum h 256) t sumB wB mv thr = thr"
        using t False True by (subst otsuScan.simps) (simp add: Let_def)
      have "classVariance h s \<le> mv" if "s < 256" for s
      proof (cases "s < t")
        case True
        then show ?thesis using Suc.prems by simp
      next
        case False
        then have "cumWeight h (t + 1) \<le> cumWeight h (s + 1)"
          using assms(1) that by (intro cumWeight_mono) simp_all
        moreover have "cumWeight h (s + 1) \<le> cumWeight h 256"
          using assms(1) that by (intro cumWeight_mono) simp_all
        ultimately have "cumWeight h (s + 1) = cumWeight h 256"
          using True wB' by linarith
        then show ?thesis
          using Suc.prems by (simp add: classVariance_empty_above)
      qed
      moreover have "(thr = 0 \<and> mv = 0) \<or> (thr < 256 \<and> classVariance h thr = mv)"
        using Suc.prems t by auto
      ultimately show ?thesis
        unfolding brk using assms(1) Suc.prems
        by (intro scan_finish [where mv = mv]) simp_all
    next
      case wF: False
      let ?sumB = "sumB + int t * h ! t"
      have sumB': "?sumB = cumSum h (t + 1)"
        using Suc.prems by (simp add: cumSum_Suc)
      let ?variance = "classVariance h t"
      have variance: "?variance =
          (let wF = cumWeight h 256 - ?wB;
               mB = real_of_int ?sumB / real_of_int ?wB;
               mF = real_of_int (cumSum h 256 - ?sumB) / real_of_int wF
           in real_of_int ?wB * real_of_int wF * (mB - mF) * (mB - mF))"
        by (simp add: classVariance_def wB' sumB' Let_def)
      show ?thesis
      proof (cases "?variance > mv")
        case True
        have step: "otsuScan h (cumWeight h 256) (cumSum h 256) t sumB wB mv thr
            = otsuScan h (cumWeight h 256) (cumSum h 256) (t + 1) ?sumB ?wB ?variance t"
          using t False wF True
          by (subst otsuScan.simps) (simp add: Let_def variance)
        have "\<forall>s<t + 1. classVariance h s \<le> ?variance"
          using Suc.prems True by (auto simp add: less_Suc_eq)
        moreover have "\<forall>s<t. classVariance h s < ?variance"
          using Suc.prems True by auto
        moreover have "0 \<le> ?variance" using True Suc.prems by linarith
        ultimately show ?thesis
          unfolding step
          using Suc.hyps(2) t wB' sumB'
          by (intro Suc.hyps(1)) simp_all
      next
        case notgreater: False
        have step: "otsuScan h (cumWeight h 256) (cumSum h 256) t sumB wB mv thr
            = otsuScan h (cumWeight h 256) (cumSum h 256) (t + 1) ?sumB ?wB mv thr"
          using t False wF notgreater
          by (subst otsuScan.simps) (simp add: Let_def variance)
        have "\<forall>s<t + 1. classVariance h s \<le> mv"
          using Suc.prems notgreater by (auto simp add: less_Suc_eq)
        moreover have "(thr = 0 \<and> mv = 0) \<or> (thr < t + 1 \<and> classVariance h thr = mv)"
          using Suc.prems by auto
        ultimately show ?thesis
          unfolding step
          using Suc.hyps(2) t wB' sumB' Suc.prems
          by (intro Suc.hyps(1)) simp_all
      qed
    qed
  qed
qed

lemma counts_buildHistogram: "counts (buildHistogram grayscale)"
  by (simp add: counts_def nth_buildHistogram)

lemma cumWeight_total: "cumWeight (buildHistogram grayscale) 256 = int (length grayscale)"
  by (simp add: cumWeight_def sum_buildHistogram)

lemma otsuThreshold_scan:
  "otsuThreshold grayscale =
     otsuScan (buildHistogram grayscale) (cumWeight (buildHistogram grayscale) 256)
       (cumSum (buildHistogram grayscale) 256) 0 0 0 0 0"
  by (simp add: otsuThreshold_def Let_def cumWeight_total weightedSum_sum cumSum_def)

lemma otsuThreshold_argmax:
  "otsuThreshold grayscale < 256
   \<and> (\<forall>s<256. betweenClassVariance grayscale s
          \<le> betweenClassVariance grayscale (otsuThreshold grayscale))
   \<and> (\<forall>s<otsuThreshold grayscale. betweenClassVariance grayscale s
          < betweenClassVariance grayscale (otsuThreshold grayscale))"
  unfolding betweenClassVariance_def otsuThreshold_scan
  by (rule otsuScan_correct [OF counts_buildHistogram])
    (simp_all add: cumWeight_def cumSum_def)

lemma filter_less_Suc:
  "length (filter (\<lambda>v. f v < Suc t) gs)
     = length (filter (\<lambda>v. f v < t) gs) + length (filter (\<lambda>v. f v = (t::nat)) gs)"
  by (induction gs) auto

lemma cumWeight_pixels:
  assumes "t \<le> 256"
  shows "cumWeight (buildHistogram grayscale) t
           = int (length (filter (\<lambda>g. binOf g < t) grayscale))"
  using assms
proof (induction t)
  case 0
  show ?case by (simp add: cumWeight_def)
next
  case (Suc t)
  then show ?case
    by (simp add: cumWeight_Suc nth_buildHistogram filter_less_Suc)
qed

lemma cumSum_le:
  assumes "counts h" and "s < 256"
  shows "cumSum h (s + 1) \<le> int s * cumWeight h (s + 1)"
proof -
  have "(\<Sum>i\<in>{..<s + 1}. int i * h ! i) \<le> (\<Sum>i\<in>{..<s + 1}. int s * h ! i)"
  proof (rule sum_mono)
    fix i assume "i \<in> {..<s + 1}"
    then have "i \<le> s" "0 \<le> h ! i"
      using assms by (simp_all add: counts_def)
    then show "int i * h ! i \<le> int s * h ! i"
      by (intro mult_right_mono) simp_all
  qed
  then show ?thesis
    unfolding cumSum_def cumWeight_def sum_distrib_left .
qed

lemma cumSum_rest_ge:
  assumes "counts h" and "s < 256"
  shows "(int s + 1) * (cumWeight h 256 - cumWeight h (s + 1))
           \<le> cumSum h 256 - cumSum h (s + 1)"
proof -
  have split: "{..<256} = {..<s + 1} \<union> {s + 1..<256::nat}"
    using assms(2) by auto
  have disj: "{..<s + 1} \<inter> {s + 1..<256::nat} = {}" by auto
  have w: "cumWeight h 256 - cumWeight h (s + 1) = (\<Sum>i\<in>{s + 1..<256}. h ! i)"
    unfolding cumWeight_def by (subst split, subst sum.union_disjoint [OF _ _ disj]) simp_all
  have c: "cumSum h 256 - cumSum h (s + 1) = (\<Sum>i\<in>{s + 1..<256}. int i * h ! i)"
    unfolding cumSum_def by (subst split, subst sum.union_disjoint [OF _ _ disj]) simp_all
  have "(\<Sum>i\<in>{s + 1..<256}. (int s + 1) * h ! i) \<le> (\<Sum>i\<in>{s + 1..<256}. int i * h ! i)"
  proof (rule sum_mono)
    fix i assume "i \<in> {s + 1..<256}"
    then have "int s + 1 \<le> int i" "0 \<le> h ! i"
      using assms by (simp_all add: counts_def)
    then show "(int s + 1) * h ! i \<le> int i * h ! i"
      by (intro mult_right_mono) simp_all
  qed
  then show ?thesis
    unfolding w c sum_distrib_left .
qed

lemma classVariance_pos:
  assumes "counts h" and "s < 256"
    and "0 < cumWeight h (s + 1)" and "cumWeight h (s + 1) < cumWeight h 256"
  shows "0 < classVariance h s"
proof -
  define wB where "wB = real_of_int (cumWeight h (s + 1))"
  define wF where "wF = real_of_int (cumWeight h 256 - cumWeight h (s + 1))"
  define mB where "mB = real_of_int (cumSum h (s + 1)) / wB"
  define mF where "mF = real_of_int (cumSum h 256 - cumSum h (s + 1)) / wF"
  have pos: "0 < wB" "0 < wF"
    using assms(3,4) by (simp_all add: wB_def wF_def)
  have "real_of_int (cumSum h (s + 1)) \<le> real_of_int (int s * cumWeight h (s + 1))"
    using cumSum_le [OF assms(1,2)] by (simp only: of_int_le_iff)
  then have "mB \<le> real s"
    using pos by (simp add: mB_def wB_def pos_divide_le_eq)
  moreover have "real_of_int ((int s + 1) * (cumWeight h 256 - cumWeight h (s + 1)))
                   \<le> real_of_int (cumSum h 256 - cumSum h (s + 1))"
    using cumSum_rest_ge [OF assms(1,2)] by (simp only: of_int_le_iff)
  then have "real s + 1 \<le> mF"
    using pos by (simp add: mF_def wF_def pos_le_divide_eq)
  ultimately have "mB - mF \<noteq> 0" by linarith
  then have "0 < (mB - mF) * (mB - mF)"
    by (simp add: zero_less_mult_iff not_less) (metis linorder_neqE_linordered_idom)
  then have "0 < wB * wF * ((mB - mF) * (mB - mF))"
    using pos by simp
  then show ?thesis
    by (simp add: classVariance_def Let_def wB_def wF_def mB_def mF_def mult.assoc)
qed

lemma classVariance_pos_iff:
  assumes "counts h" and "s < 256"
  shows "0 < classVariance h s
           \<longleftrightarrow> 0 < cumWeight h (s + 1) \<and> cumWeight h (s + 1) < cumWeight h 256"
proof
  assume pos: "0 < classVariance h s"
  have "0 \<le> cumWeight h (s + 1)"
    using assms by (intro cumWeight_nonneg) simp_all
  moreover have "cumWeight h (s + 1) \<le> cumWeight h 256"
    using assms by (intro cumWeight_mono) simp_all
  moreover have "cumWeight h (s + 1) \<noteq> 0"
    using pos classVariance_empty_below [of h s] by auto
  moreover have "cumWeight h (s + 1) \<noteq> cumWeight h 256"
    using pos classVariance_empty_above [of h s] by auto
  ultimately show "0 < cumWeight h (s + 1) \<and> cumWeight h (s + 1) < cumWeight h 256"
    by linarith
next
  assume "0 < cumWeight h (s + 1) \<and> cumWeight h (s + 1) < cumWeight h 256"
  then show "0 < classVariance h s"
    using classVariance_pos [OF assms] by simp
qed

lemma betweenClassVariance_pos_iff:
  assumes "s < 256"
  shows "0 < betweenClassVariance grayscale s
           \<longleftrightarrow> (\<exists>v\<in>set grayscale. binOf v \<le> s) \<and> (\<exists>w\<in>set grayscale. s < binOf w)"
proof -
  let ?below = "filter (\<lambda>g. binOf g < Suc s) grayscale"
  have w: "cumWeight (buildHistogram grayscale) (Suc s) = int (length ?below)"
    using assms by (intro cumWeight_pixels) simp
  have "0 < length ?below \<longleftrightarrow> (\<exists>v\<in>set grayscale. binOf v \<le> s)"
    by (auto simp add: filter_empty_conv less_Suc_eq_le)
  moreover have "length ?below < length grayscale \<longleftrightarrow> (\<exists>w\<in>set grayscale. s < binOf w)"
  proof
    assume "length ?below < length grayscale"
    then have "?below \<noteq> grayscale" by auto
    then show "\<exists>w\<in>set grayscale. s < binOf w"
      by (auto simp add: filter_id_conv less_Suc_eq_le not_le)
  next
    assume "\<exists>w\<in>set grayscale. s < binOf w"
    then obtain w where "w \<in> set grayscale" "\<not> binOf w < Suc s" by auto
    then show "length ?below < length grayscale"
      by (rule length_filter_less)
  qed
  moreover have "0 < classVariance (buildHistogram grayscale) s
      \<longleftrightarrow> 0 < length ?below \<and> length ?below < length grayscale"
    using classVariance_pos_iff [OF counts_buildHistogram assms, of grayscale]
    by (simp add: w cumWeight_total)
  ultimately show ?thesis
    unfolding betweenClassVariance_def by simp
qed

lemma betweenClassVariance_nonneg:
  "s < 256 \<Longrightarrow> 0 \<le> betweenClassVariance grayscale s"
  unfolding betweenClassVariance_def
  by (rule classVariance_nonneg [OF counts_buildHistogram])

lemma otsuThreshold_degenerate:
  assumes "\<forall>t<256. (\<forall>v\<in>set grayscale. binOf v \<le> t) \<or> (\<forall>v\<in>set grayscale. t < binOf v)"
  shows "otsuThreshold grayscale = 0"
proof (rule ccontr)
  assume "otsuThreshold grayscale \<noteq> 0"
  then have "betweenClassVariance grayscale 0
               < betweenClassVariance grayscale (otsuThreshold grayscale)"
    using otsuThreshold_argmax [of grayscale] by simp
  then have "0 < betweenClassVariance grayscale (otsuThreshold grayscale)"
    using betweenClassVariance_nonneg [of 0 grayscale] by simp
  then have "(\<exists>v\<in>set grayscale. binOf v \<le> otsuThreshold grayscale)
             \<and> (\<exists>w\<in>set grayscale. otsuThreshold grayscale < binOf w)"
    using otsuThreshold_argmax [of grayscale] by (simp add: betweenClassVariance_pos_iff)
  then show False
    using assms otsuThreshold_argmax [of grayscale] by (meson not_less)
qed

lemma classVariance_empty_bin:
  assumes "h ! Suc k = 0"
  shows "classVariance h (Suc k) = classVariance h k"
  using assms by (simp add: classVariance_def cumWeight_Suc cumSum_Suc)

lemma otsuThreshold_occupied:
  assumes "v \<in> set grayscale" and "w \<in> set grayscale" and "binOf v < binOf w"
  shows "(\<exists>a\<in>set grayscale. binOf a = otsuThreshold grayscale)
         \<and> (\<exists>b\<in>set grayscale. otsuThreshold grayscale < binOf b)"
proof -
  let ?thr = "otsuThreshold grayscale"
  have thr: "?thr < 256" using otsuThreshold_argmax by blast
  have "0 < betweenClassVariance grayscale (binOf v)"
    using assms binOf_less [of v] by (auto simp add: betweenClassVariance_pos_iff)
  moreover have "betweenClassVariance grayscale (binOf v) \<le> betweenClassVariance grayscale ?thr"
    using otsuThreshold_argmax [of grayscale] binOf_less [of v] by blast
  ultimately have pos: "0 < betweenClassVariance grayscale ?thr" by linarith
  then have sides: "(\<exists>a\<in>set grayscale. binOf a \<le> ?thr) \<and> (\<exists>b\<in>set grayscale. ?thr < binOf b)"
    using thr by (simp add: betweenClassVariance_pos_iff)
  have "\<exists>a\<in>set grayscale. binOf a = ?thr"
  proof (rule ccontr)
    assume "\<not> (\<exists>a\<in>set grayscale. binOf a = ?thr)"
    then have empty: "buildHistogram grayscale ! ?thr = 0"
      using thr by (simp add: nth_buildHistogram filter_empty_conv)
    show False
    proof (cases ?thr)
      case 0
      then have "\<forall>a\<in>set grayscale. binOf a \<noteq> 0"
        using \<open>\<not> (\<exists>a\<in>set grayscale. binOf a = ?thr)\<close> by simp
      then show False using sides 0 by auto
    next
      case (Suc k)
      then have "classVariance (buildHistogram grayscale) (Suc k)
                   = classVariance (buildHistogram grayscale) k"
        using empty by (intro classVariance_empty_bin) simp
      moreover have "betweenClassVariance grayscale k < betweenClassVariance grayscale ?thr"
        using otsuThreshold_argmax [of grayscale] Suc by simp
      ultimately show False
        by (simp add: betweenClassVariance_def Suc)
    qed
  qed
  then show ?thesis using sides by simp
qed

lemma otsuThreshold_two_bins:
  assumes "a < b" and "\<exists>v\<in>set grayscale. binOf v = a" and "\<exists>v\<in>set grayscale. binOf v = b"
    and "\<forall>v\<in>set grayscale. binOf v = a \<or> binOf v = b"
  shows "otsuThreshold grayscale = a"
proof -
  obtain v w where vw: "v \<in> set grayscale" "w \<in> set grayscale" "binOf v = a" "binOf w = b"
    using assms(2,3) by blast
  have "(\<exists>a\<in>set grayscale. binOf a = otsuThreshold grayscale)
         \<and> (\<exists>b\<in>set grayscale. otsuThreshold grayscale < binOf b)"
    using vw assms(1) by (intro otsuThreshold_occupied [of v _ w]) simp_all
  then show ?thesis
    using assms(1,4) by (metis less_asym)
qed



text \<open>
  C7 as stated fails: the first candidate of maximal variance is an occupied bin, so
  the threshold is never inside the gap. For the two pixels 10 and 200 it is 10, the
  bin of the lower cluster.
\<close>

theorem otsuThreshold_not_in_gap_counterexample:
  "bimodal [10, 200] 10 200 \<and> otsuThreshold [10, 200] = 10
   \<and> \<not> (10 < otsuThreshold [10, 200] \<and> otsuThreshold [10, 200] < 200)"
proof -
  have "otsuThreshold [10, 200] = 10"
    by (rule otsuThreshold_two_bins [where b = 200]) (simp_all add: binOf_def)
  moreover have "bimodal [10, 200] 10 200"
    by (simp add: bimodal_def binOf_def)
  ultimately show ?thesis by simp
qed

text \<open>
  C7, amended: for a bimodal histogram the threshold is an occupied bin below the
  highest occupied bin, so it is at or below the top of the lower cluster or inside the
  upper cluster, and never in the gap; when each cluster is a single bin, it is the bin
  of the lower cluster.
\<close>

theorem otsuThreshold_bimodal:
  assumes "bimodal grayscale lowTop highBottom"
  shows "(\<exists>a\<in>set grayscale. binOf a = otsuThreshold grayscale)
         \<and> (\<exists>b\<in>set grayscale. otsuThreshold grayscale < binOf b)
         \<and> \<not> (lowTop < otsuThreshold grayscale \<and> otsuThreshold grayscale < highBottom)
         \<and> ((\<forall>v\<in>set grayscale. binOf v = lowTop \<or> binOf v = highBottom)
               \<longrightarrow> otsuThreshold grayscale = lowTop)"
proof -
  obtain v w where vw: "v \<in> set grayscale" "w \<in> set grayscale"
      "binOf v = lowTop" "binOf w = highBottom" and gap: "lowTop + 1 < highBottom"
    using assms unfolding bimodal_def by blast
  have occ: "(\<exists>a\<in>set grayscale. binOf a = otsuThreshold grayscale)
         \<and> (\<exists>b\<in>set grayscale. otsuThreshold grayscale < binOf b)"
    using vw gap by (intro otsuThreshold_occupied [of v _ w]) simp_all
  moreover have "\<not> (lowTop < otsuThreshold grayscale \<and> otsuThreshold grayscale < highBottom)"
    using occ assms unfolding bimodal_def by (metis not_le)
  moreover have "otsuThreshold grayscale = lowTop"
    if "\<forall>v\<in>set grayscale. binOf v = lowTop \<or> binOf v = highBottom"
    using that vw gap by (intro otsuThreshold_two_bins [where b = highBottom]) auto
  ultimately show ?thesis by blast
qed

theorem otsuThreshold_bimodal_witness:
  "bimodal [3, 7 / 2, 250] 3 250 \<and> otsuThreshold [3, 7 / 2, 250] = 3
   \<and> \<not> (3 < otsuThreshold [3, 7 / 2, 250] \<and> otsuThreshold [3, 7 / 2, 250] < 250)"
proof -
  have bi: "bimodal [3, 7 / 2, 250] 3 250"
    by (simp add: bimodal_def binOf_def)
  have "\<forall>v\<in>set [3, 7 / 2, 250 :: real]. binOf v = 3 \<or> binOf v = 250"
    by (simp add: binOf_def)
  then show ?thesis
    using bi otsuThreshold_bimodal [OF bi] by blast
qed

text \<open>
  The threshold need not be the top bin of the lower cluster either: in the field
  \<open>lopsided\<close> the candidate 0 has the variance 968/9 and the candidate 1 only 100,
  so the threshold is 0 and splits the lower cluster.
\<close>

lemma filter_sum_less_Suc:
  "(\<Sum>v\<leftarrow>filter (\<lambda>v. f v < Suc t) gs. int (f v))
     = (\<Sum>v\<leftarrow>filter (\<lambda>v. f v < t) gs. int (f v))
       + int t * int (length (filter (\<lambda>v. f v = t) gs))"
  by (induction gs) (auto simp add: algebra_simps)

lemma cumSum_pixels:
  assumes "t \<le> 256"
  shows "cumSum (buildHistogram grayscale) t
           = (\<Sum>g\<leftarrow>filter (\<lambda>g. binOf g < t) grayscale. int (binOf g))"
  using assms
proof (induction t)
  case 0
  show ?case by (simp add: cumSum_def)
next
  case (Suc t)
  then show ?case
    by (simp add: cumSum_Suc nth_buildHistogram filter_sum_less_Suc)
qed

lemma lopsided_variances:
  "betweenClassVariance lopsided 0 = 968 / 9" "betweenClassVariance lopsided 1 = 100"
  by (simp_all add: betweenClassVariance_def classVariance_def Let_def cumWeight_pixels
      cumSum_pixels lopsided_def binOf_def)

lemma otsuThreshold_splits_cluster: "bimodal lopsided 1 3 \<and> otsuThreshold lopsided = 0"
proof -
  have bi: "bimodal lopsided 1 3"
    by (simp add: bimodal_def lopsided_def binOf_def)
  have "(\<exists>a\<in>set lopsided. binOf a = otsuThreshold lopsided)
         \<and> (\<exists>b\<in>set lopsided. otsuThreshold lopsided < binOf b)"
    by (rule otsuThreshold_occupied [of 0 _ 3]) (simp_all add: lopsided_def binOf_def)
  then have "otsuThreshold lopsided = 0 \<or> otsuThreshold lopsided = 1"
    by (auto simp add: lopsided_def binOf_def)
  moreover have "otsuThreshold lopsided \<noteq> 1"
  proof
    assume one: "otsuThreshold lopsided = 1"
    have "betweenClassVariance lopsided 0 < betweenClassVariance lopsided (otsuThreshold lopsided)"
      using otsuThreshold_argmax [of lopsided] one by simp
    then have "betweenClassVariance lopsided 0 < betweenClassVariance lopsided 1"
      by (simp only: one)
    then show False by (simp only: lopsided_variances)
  qed
  ultimately show ?thesis using bi by simp
qed

section \<open>The cropped field\<close>

lemma concat_blocks:
  assumes "\<And>i. i < n \<Longrightarrow> length (f i) = k"
  shows "length (concat (map f [0..<n])) = n * k
         \<and> (\<forall>i<n. \<forall>j<k. concat (map f [0..<n]) ! (i * k + j) = f i ! j)"
  using assms
proof (induction n)
  case 0
  show ?case by simp
next
  case (Suc n)
  have IH: "length (concat (map f [0..<n])) = n * k"
    "\<And>i j. i < n \<Longrightarrow> j < k \<Longrightarrow> concat (map f [0..<n]) ! (i * k + j) = f i ! j"
    using Suc by simp_all
  have len: "length (f n) = k" using Suc.prems by simp
  have "concat (map f [0..<Suc n]) ! (i * k + j) = f i ! j" if "i < Suc n" "j < k" for i j
  proof (cases "i < n")
    case True
    then have "Suc i * k \<le> n * k" by (intro mult_le_mono1) simp
    then have "i * k + j < n * k" using that(2) by simp
    then show ?thesis using IH True that(2) by (simp add: nth_append)
  next
    case False
    then have "i = n" using that(1) by simp
    then show ?thesis using IH(1) that(2) by (simp add: nth_append)
  qed
  then show ?case using IH(1) len by simp
qed

lemma length_cropPixel [simp]: "length (cropPixel imageData bounds row col) = 4"
  by (simp add: cropPixel_def Let_def)

lemma length_cropRow:
  "length (concat (map (\<lambda>col. cropPixel imageData bounds row col) [0..<w])) = w * 4"
  using concat_blocks [of w "\<lambda>col. cropPixel imageData bounds row col" 4] by simp

lemma length_cropToROI:
  "length (cropToROI imageData bounds) = nat (roi_height bounds) * (nat (roi_width bounds) * 4)"
  unfolding cropToROI_def
  using concat_blocks [of "nat (roi_height bounds)"
      "\<lambda>row. concat (map (\<lambda>col. cropPixel imageData bounds row col) [0..<nat (roi_width bounds)])"
      "nat (roi_width bounds) * 4"]
  by (simp add: length_cropRow)

lemma nth_cropToROI:
  assumes "row < nat (roi_height bounds)" and "col < nat (roi_width bounds)" and "c < 4"
  shows "cropToROI imageData bounds ! ((row * nat (roi_width bounds) + col) * 4 + c)
           = cropPixel imageData bounds row col ! c"
proof -
  let ?w = "nat (roi_width bounds)"
  let ?rowf = "\<lambda>row. concat (map (\<lambda>col. cropPixel imageData bounds row col) [0..<?w])"
  have "col * 4 + c < ?w * 4" using assms(2,3) by simp
  then have "cropToROI imageData bounds ! (row * (?w * 4) + (col * 4 + c)) = ?rowf row ! (col * 4 + c)"
    unfolding cropToROI_def
    using concat_blocks [of "nat (roi_height bounds)" ?rowf "?w * 4"] assms(1)
    by (simp add: length_cropRow)
  also have "\<dots> = cropPixel imageData bounds row col ! c"
    using concat_blocks [of ?w "\<lambda>col. cropPixel imageData bounds row col" 4] assms(2,3)
    by simp
  finally show ?thesis by (simp add: algebra_simps)
qed

lemma length_gray_crop:
  "length (toGrayscale (cropToROI imageData bounds))
     = nat (roi_height bounds) * nat (roi_width bounds)"
  by (simp add: toGrayscale_def length_cropToROI)

lemma nth_gray_crop:
  assumes "row < nat (roi_height bounds)" and "col < nat (roi_width bounds)"
  shows "toGrayscale (cropToROI imageData bounds) ! (row * nat (roi_width bounds) + col)
           = luminance (cropPixel imageData bounds row col)"
proof -
  let ?w = "nat (roi_width bounds)"
  have "Suc row * ?w \<le> nat (roi_height bounds) * ?w"
    using assms(1) by (intro mult_le_mono1) simp
  then have idx: "row * ?w + col < nat (roi_height bounds) * ?w"
    using assms(2) by simp
  have "toGrayscale (cropToROI imageData bounds) ! (row * ?w + col)
      = 299 / 1000 * real (unat (cropToROI imageData bounds ! ((row * ?w + col) * 4 + 0)))
        + 587 / 1000 * real (unat (cropToROI imageData bounds ! ((row * ?w + col) * 4 + 1)))
        + 114 / 1000 * real (unat (cropToROI imageData bounds ! ((row * ?w + col) * 4 + 2)))"
    using idx by (simp add: toGrayscale_def length_cropToROI)
  then show ?thesis
    using assms by (simp only: nth_cropToROI luminance_def)
qed

section \<open>Uniform fields\<close>

lemma gray_uniform:
  assumes "\<And>row col. row < nat (roi_height bounds) \<Longrightarrow> col < nat (roi_width bounds)
             \<Longrightarrow> luminance (cropPixel imageData bounds row col) = L"
  shows "toGrayscale (cropToROI imageData bounds)
           = replicate (nat (roi_width bounds) * nat (roi_height bounds)) L"
proof (rule nth_equalityI)
  show "length (toGrayscale (cropToROI imageData bounds))
          = length (replicate (nat (roi_width bounds) * nat (roi_height bounds)) L)"
    by (simp only: length_gray_crop length_replicate mult.commute)
next
  let ?w = "nat (roi_width bounds)" and ?h = "nat (roi_height bounds)"
  fix i assume "i < length (toGrayscale (cropToROI imageData bounds))"
  then have i: "i < ?h * ?w" by (simp only: length_gray_crop)
  then have w: "0 < ?w" by (cases "?w = 0") simp_all
  have row: "i div ?w < ?h" using i by (simp add: less_mult_imp_div_less)
  have col: "i mod ?w < ?w" using w by simp
  have "toGrayscale (cropToROI imageData bounds) ! ((i div ?w) * ?w + i mod ?w) = L"
    using nth_gray_crop [OF row col] assms [OF row col] by simp
  then show "toGrayscale (cropToROI imageData bounds) ! i
               = replicate (?w * ?h) L ! i"
    using i by (simp add: mult.commute)
qed

lemma stretch_uniform: "stretchContrast (replicate n L) = replicate n L"
proof (cases n)
  case 0
  then show ?thesis by (simp add: stretchContrast_def)
next
  case (Suc m)
  have "lowest L (replicate m L) = L" "highest L (replicate m L) = L"
    using lowest_mem [of L "replicate m L"] highest_mem [of L "replicate m L"]
    by (auto split: if_splits)
  then show ?thesis
    using Suc by (simp add: stretchContrast_def Let_def)
qed

lemma blur_uniform: "boxBlur (replicate (width * height) L) width height radius
                       = replicate (width * height) L"
proof -
  let ?blurred = "boxBlur (replicate (width * height) L) width height radius"
  have "v = L" if mem: "v \<in> set ?blurred" for v
  proof -
    obtain y x where v: "v = blurAt (replicate (width * height) L) width height radius y x"
        "y < height" "x < width"
      using mem by (auto simp add: set_boxBlur)
    have "L \<le> blurAt (replicate (width * height) L) width height radius y x
          \<and> blurAt (replicate (width * height) L) width height radius y x \<le> L"
      by (rule blurAt_bounds [OF _ _ v(2,3)]) (simp_all split: if_splits)
    then show ?thesis using v(1) by simp
  qed
  then have "replicate (length ?blurred) L = ?blurred"
    by (intro replicate_length_same) simp
  then show ?thesis by (simp add: length_boxBlur)
qed

lemma otsu_uniform: "otsuThreshold (replicate n L) = 0"
  by (rule otsuThreshold_degenerate) (auto simp add: not_less)

lemma firstIndex_uniform:
  "firstIndex P (replicate w L) s = (if P L \<and> s < w then Some s else None)"
proof (cases "P L \<and> s < w")
  case True
  then have "[s..<w] = s # [s + 1..<w]" by (simp add: upt_conv_Cons)
  then show ?thesis using True by (simp add: firstIndex_def)
next
  case False
  then have "List.find (\<lambda>i. P (replicate w L ! i)) [s..<w] = None"
    by (auto simp add: find_upt_None)
  then show ?thesis using False by (simp add: firstIndex_def)
qed

lemma specEdges_uniform:
  assumes "0 < w"
  shows "specEdges (replicate w L) threshold = Some (0, w)"
  using assms by (simp add: specEdges_def firstIndex_uniform not_less)

lemma rowOf_uniform:
  assumes "y < height"
  shows "rowOf (replicate (width * height) L) width y = replicate width L"
proof -
  have "y * width + width \<le> length (replicate (width * height) L)"
    using assms by (intro row_in_field [where height = height]) simp_all
  then have "min width (width * height - y * width) = width" by simp
  then show ?thesis by (simp add: rowOf_def)
qed

lemma findBoundaries_uniform:
  assumes "0 < width"
  shows "findBoundaries (replicate (width * height) L) width height threshold = replicate height 1"
proof -
  have "rowAmplitude (replicate (width * height) L) width threshold y = 1" if "y < height" for y
  proof -
    have row: "y * width + width \<le> length (replicate (width * height) L)"
      using that by (intro row_in_field [where height = height]) simp_all
    have "specEdges (rowOf (replicate (width * height) L) width y) threshold = Some (0, width)"
      using that assms by (simp add: rowOf_uniform specEdges_uniform)
    from rowAmplitude_found [OF row this] show ?thesis using assms by simp
  qed
  then have "map (\<lambda>y. rowAmplitude (replicate (width * height) L) width threshold y) [0..<height]
               = map (\<lambda>y. 1) [0..<height]"
    by (intro map_cong) simp_all
  then show ?thesis by (simp add: findBoundaries_def map_replicate_const)
qed

lemma foldl_add:
  fixes f :: "real \<Rightarrow> real"
  shows "foldl (\<lambda>s v. s + f v) a xs = a + sum_list (map f xs)"
  by (induction xs arbitrary: a) simp_all

lemma standardDeviation_variance:
  "standardDeviation data =
     (if data = [] then 0
      else sqrt ((\<Sum>v\<leftarrow>data. (v - sum_list data / real (length data)) ^ 2)
                    / real (length data)))"
  using foldl_add [of "\<lambda>v. v" 0 data]
  by (simp add: standardDeviation_def Let_def foldl_add)

lemma standardDeviation_uniform: "standardDeviation (replicate n c) = 0"
  by (simp add: standardDeviation_variance sum_list_replicate)

section \<open>Uniform regions and regions outside the buffer\<close>

lemma smoothed_uniform:
  assumes "uniformRegion imageData bounds"
  shows "\<exists>L. smoothedField imageData bounds
               = replicate (nat (roi_width bounds) * nat (roi_height bounds)) L"
proof -
  obtain p where "\<And>row col. row < nat (roi_height bounds) \<Longrightarrow> col < nat (roi_width bounds)
      \<Longrightarrow> luminance (cropPixel imageData bounds row col) = luminance p"
    using assms unfolding uniformRegion_def by auto
  then have "toGrayscale (cropToROI imageData bounds)
           = replicate (nat (roi_width bounds) * nat (roi_height bounds)) (luminance p)"
    by (rule gray_uniform)
  then show ?thesis
    by (simp add: smoothedField_def stretch_uniform blur_uniform)
qed

lemma raw_uniform:
  assumes "uniformRegion imageData bounds" and "0 < roi_width bounds"
  shows "rawWaveformOf imageData bounds = replicate (nat (roi_height bounds)) 1"
proof -
  obtain L where "smoothedField imageData bounds
               = replicate (nat (roi_width bounds) * nat (roi_height bounds)) L"
    using smoothed_uniform [OF assms(1)] by blast
  then show ?thesis
    using assms(2) by (simp add: rawWaveformOf_def findBoundaries_uniform)
qed

lemma extract_uniform:
  assumes "uniformRegion imageData bounds"
    and "20 \<le> roi_width bounds" and "20 \<le> roi_height bounds"
  shows "extractWaveform imageData bounds = Inl NoVariation"
proof -
  have "rawWaveformOf imageData bounds = replicate (nat (roi_height bounds)) 1"
    using assms by (intro raw_uniform) simp_all
  then show ?thesis
    using assms(2,3) by (simp add: extractWaveform_stages standardDeviation_uniform)
qed

lemma srcByte_replicate:
  "srcByte (replicate n v) i = (if 0 \<le> i \<and> i < int n then v else 0)"
  by (auto simp add: srcByte_def nat_less_iff)

lemma uniform_blank:
  "uniformRegion \<lparr>img_data = replicate n 0, img_width = w, img_height = h\<rparr> bounds"
  unfolding uniformRegion_def
  by (rule exI [of _ "[0, 0, 0, 0]"]) (simp add: cropPixel_def srcByte_replicate Let_def)

lemma uniform_grayPatch: "uniformRegion grayPatch patchRegion"
  unfolding uniformRegion_def
  by (rule exI [of _ "[128, 128, 128, 128]"])
    (auto simp add: cropPixel_def srcByte_replicate Let_def grayPatch_def patchRegion_def)

lemma uniform_grayImage: "uniformRegion grayImage wholeRegion"
  unfolding uniformRegion_def
  by (rule exI [of _ "[128, 128, 128, 128]"])
    (auto simp add: cropPixel_def srcByte_replicate Let_def grayImage_def wholeRegion_def)

text \<open>
  C6 as stated fails for the 4 by 4 region of mid-gray pixels: the size check rejects it
  before anything else, so the failure is \<open>RegionTooSmall\<close> and not \<open>NoVariation\<close>.
\<close>

theorem uniform_patch_counterexample:
  "wellFormed grayPatch \<and> inBounds grayPatch patchRegion \<and> uniformRegion grayPatch patchRegion
   \<and> extractWaveform grayPatch patchRegion = Inl RegionTooSmall
   \<and> extractWaveform grayPatch patchRegion \<noteq> Inl NoVariation"
  using uniform_grayPatch
  by (simp add: wellFormed_def inBounds_def extractWaveform_def grayPatch_def patchRegion_def)

text \<open>
  C6, amended: a uniform region of width and height at least 20 fails with
  \<open>NoVariation\<close>; a smaller one fails with \<open>RegionTooSmall\<close>. In both cases the raw
  waveform that the stages after the size check compute is 1 in every row, of standard
  deviation 0.
\<close>

theorem uniform_region_NoVariation:
  assumes "uniformRegion imageData bounds"
  shows "(20 \<le> roi_width bounds \<and> 20 \<le> roi_height bounds
            \<longrightarrow> extractWaveform imageData bounds = Inl NoVariation)
         \<and> (roi_width bounds < 20 \<or> roi_height bounds < 20
            \<longrightarrow> extractWaveform imageData bounds = Inl RegionTooSmall)
         \<and> (0 < roi_width bounds
            \<longrightarrow> rawWaveformOf imageData bounds = replicate (nat (roi_height bounds)) 1
                \<and> standardDeviation (rawWaveformOf imageData bounds) = 0)"
  using extract_uniform [OF assms] raw_uniform [OF assms]
  by (auto simp add: extractWaveform_def standardDeviation_uniform)

theorem uniform_region_NoVariation_witness:
  "uniformRegion grayImage wholeRegion
   \<and> extractWaveform grayImage wholeRegion = Inl NoVariation
   \<and> uniformRegion grayPatch patchRegion
   \<and> extractWaveform grayPatch patchRegion = Inl RegionTooSmall
   \<and> rawWaveformOf grayPatch patchRegion = [1, 1, 1, 1]
   \<and> standardDeviation (rawWaveformOf grayPatch patchRegion) = 0"
proof -
  have sizes: "20 \<le> roi_width wholeRegion \<and> 20 \<le> roi_height wholeRegion"
    "roi_width patchRegion < 20 \<or> roi_height patchRegion < 20" "0 < roi_width patchRegion"
    "replicate (nat (roi_height patchRegion)) (1::real) = [1, 1, 1, 1]"
    by (simp_all add: wholeRegion_def patchRegion_def numeral_eq_Suc)
  have whole: "extractWaveform grayImage wholeRegion = Inl NoVariation"
    using sizes(1) uniform_region_NoVariation [OF uniform_grayImage] by blast
  have patch: "extractWaveform grayPatch patchRegion = Inl RegionTooSmall"
    "rawWaveformOf grayPatch patchRegion = replicate (nat (roi_height patchRegion)) 1"
    "standardDeviation (rawWaveformOf grayPatch patchRegion) = 0"
    using sizes(2,3) uniform_region_NoVariation [OF uniform_grayPatch] by blast+
  have "rawWaveformOf grayPatch patchRegion = [1, 1, 1, 1]"
    using patch(2) by (simp only: sizes(4))
  then show ?thesis
    using whole patch(1,3) uniform_grayImage uniform_grayPatch by blast
qed

text \<open>
  C2 as stated fails: there is no bounds check in the region extractor. A region that
  is partly outside the blank image gives \<open>NoVariation\<close>, not \<open>MalformedInput\<close>.
\<close>

theorem no_MalformedInput_counterexample:
  "wellFormed blankImage \<and> 20 \<le> roi_width offRegion \<and> 20 \<le> roi_height offRegion
   \<and> \<not> inBounds blankImage offRegion
   \<and> extractWaveform blankImage offRegion = Inl NoVariation
   \<and> extractWaveform blankImage offRegion \<noteq> Inl MalformedInput"
proof -
  have "extractWaveform blankImage offRegion = Inl NoVariation"
    unfolding blankImage_def
    by (rule extract_uniform [OF uniform_blank]) (simp_all add: offRegion_def)
  then show ?thesis
    by (simp add: wellFormed_def inBounds_def blankImage_def offRegion_def)
qed

text \<open>
  C2, amended: for a region of width and height at least 20 that is not inside the
  buffer the extraction never fails with \<open>MalformedInput\<close>. The extractor copies four
  bytes for every pixel of the region whatever its position (a byte read outside the
  data is 0), and the outcome is a waveform with one sample per row or \<open>NoVariation\<close>.
\<close>

theorem extractWaveform_no_bounds_check:
  assumes "20 \<le> roi_width roiBounds" and "20 \<le> roi_height roiBounds"
    and "\<not> inBounds imageData roiBounds"
  shows "extractWaveform imageData roiBounds \<noteq> Inl MalformedInput
         \<and> length (cropToROI imageData roiBounds)
              = 4 * nat (roi_width roiBounds) * nat (roi_height roiBounds)
         \<and> (extractWaveform imageData roiBounds = Inl NoVariation
              \<or> (\<exists>waveform. extractWaveform imageData roiBounds = Inr waveform
                     \<and> length waveform = nat (roi_height roiBounds)))"
  using extractWaveform_large [OF assms(1,2), of imageData]
  by (auto simp add: length_cropToROI)

theorem extractWaveform_no_bounds_check_witness:
  "20 \<le> roi_width farRegion \<and> 20 \<le> roi_height farRegion \<and> \<not> inBounds blankImage farRegion
   \<and> extractWaveform blankImage farRegion \<noteq> Inl MalformedInput
   \<and> length (cropToROI blankImage farRegion) = 2400
   \<and> (extractWaveform blankImage farRegion = Inl NoVariation
        \<or> (\<exists>waveform. extractWaveform blankImage farRegion = Inr waveform
               \<and> length waveform = nat (roi_height farRegion)))"
proof -
  have w: "20 \<le> roi_width farRegion" and h: "20 \<le> roi_height farRegion"
    by (simp_all add: farRegion_def)
  have out: "\<not> inBounds blankImage farRegion"
    by (simp add: inBounds_def farRegion_def blankImage_def)
  have "4 * nat (roi_width farRegion) * nat (roi_height farRegion) = 2400"
    by (simp add: farRegion_def)
  then show ?thesis
    using w h out extractWaveform_no_bounds_check [OF w h out] by simp
qed

section \<open>Ranges in the post-processor\<close>

lemma unit_to_signed:
  fixes t :: real
  shows "0 \<le> t \<Longrightarrow> t \<le> 1 \<Longrightarrow> - 1 \<le> t * 2 - 1 \<and> t * 2 - 1 \<le> 1"
  by simp

lemma normalize_range:
  assumes "highest v vs - lowest v vs \<noteq> 0"
  shows "(\<forall>s\<in>set (normalizeWaveform (v # vs)). - 1 \<le> s \<and> s \<le> 1)
         \<and> - 1 \<in> set (normalizeWaveform (v # vs)) \<and> 1 \<in> set (normalizeWaveform (v # vs))"
proof -
  let ?mn = "lowest v vs" and ?mx = "highest v vs"
  let ?f = "\<lambda>d. ((d - ?mn) / (?mx - ?mn)) * 2 - 1"
  have norm: "normalizeWaveform (v # vs) = map ?f (v # vs)"
    using assms by (simp add: normalizeWaveform_def Let_def)
  have "?mn \<le> ?mx"
    using lowest_le [of v vs] highest_ge [of v vs] by linarith
  with assms have pos: "0 < ?mx - ?mn" by linarith
  have "- 1 \<le> ?f d \<and> ?f d \<le> 1" if "d \<in> set (v # vs)" for d
  proof -
    have "?mn \<le> d" "d \<le> ?mx"
      using that lowest_le [of v vs] highest_ge [of v vs] by auto
    then have "0 \<le> (d - ?mn) / (?mx - ?mn)" "(d - ?mn) / (?mx - ?mn) \<le> 1"
      using pos by (simp_all add: divide_le_eq)
    then show ?thesis by (rule unit_to_signed)
  qed
  moreover have "?f ?mn = - 1" by simp
  moreover have "?f ?mx = 1" using pos by simp
  moreover have "?mn \<in> set (v # vs)" "?mx \<in> set (v # vs)"
    by (rule lowest_mem, rule highest_mem)
  ultimately show ?thesis
    unfolding norm by (metis (no_types, lifting) image_eqI imageE list.set_map)
qed

lemma constant_when_no_range:
  assumes "highest v vs - lowest v vs = 0"
  shows "v # vs = replicate (length (v # vs)) v"
proof -
  have "d = v" if "d \<in> set (v # vs)" for d
    using that assms lowest_le [of v vs] highest_ge [of v vs] by (auto; force)
  then have "replicate (length (v # vs)) v = v # vs"
    by (intro replicate_length_same) blast
  then show ?thesis by simp
qed

lemma varied_when_deviating:
  assumes "\<not> standardDeviation data < 1 / 100"
  shows "\<exists>v vs. data = v # vs \<and> highest v vs - lowest v vs \<noteq> 0"
proof (cases data)
  case Nil
  with assms show ?thesis by (simp add: standardDeviation_def)
next
  case (Cons v vs)
  have "highest v vs - lowest v vs \<noteq> 0"
  proof
    assume "highest v vs - lowest v vs = 0"
    then have "data = replicate (length data) v"
      using constant_when_no_range [of v vs] Cons by simp
    then have "standardDeviation data = 0"
      using standardDeviation_uniform [of "length data" v] by simp
    with assms show False by simp
  qed
  with Cons show ?thesis by blast
qed

lemma removeDCOffset_mean:
  "removeDCOffset data = map (\<lambda>d. d - sum_list data / real (length data)) data"
  using foldl_add [of "\<lambda>v. v" 0 data] by (simp add: removeDCOffset_def Let_def)

lemma removeDCOffset_sum:
  assumes "data \<noteq> []"
  shows "sum_list (removeDCOffset data) = 0"
proof -
  have "sum_list (removeDCOffset data)
          = sum_list data - real (length data) * (sum_list data / real (length data))"
    by (simp add: removeDCOffset_mean sum_list_subtractf sum_list_triv)
  then show ?thesis using assms by simp
qed

lemma sum_list_upper:
  fixes xs :: "real list"
  assumes "\<And>x. x \<in> set xs \<Longrightarrow> x \<le> hi"
  shows "sum_list xs \<le> real (length xs) * hi"
  using assms
proof (induction xs)
  case Nil
  then show ?case by simp
next
  case (Cons x xs)
  have "x \<le> hi" "sum_list xs \<le> real (length xs) * hi"
    using Cons by simp_all
  then show ?case by (simp add: algebra_simps)
qed

lemma sum_list_strict_upper:
  fixes xs :: "real list"
  assumes "\<And>x. x \<in> set xs \<Longrightarrow> x \<le> hi" and "a \<in> set xs" and "a < hi"
  shows "sum_list xs < real (length xs) * hi"
  using assms
proof (induction xs)
  case Nil
  then show ?case by simp
next
  case (Cons x xs)
  have rest: "sum_list xs \<le> real (length xs) * hi"
    using Cons.prems(1) by (intro sum_list_upper) simp
  show ?case
  proof (cases "a = x")
    case True
    then show ?thesis using rest Cons.prems(3) by (simp add: algebra_simps)
  next
    case False
    then have "sum_list xs < real (length xs) * hi"
      using Cons by auto
    moreover have "x \<le> hi" using Cons.prems(1) by simp
    ultimately show ?thesis by (simp add: algebra_simps)
  qed
qed

lemma sum_list_lower:
  fixes xs :: "real list"
  assumes "\<And>x. x \<in> set xs \<Longrightarrow> lo \<le> x"
  shows "real (length xs) * lo \<le> sum_list xs"
  using assms
proof (induction xs)
  case Nil
  then show ?case by simp
next
  case (Cons x xs)
  have "lo \<le> x" "real (length xs) * lo \<le> sum_list xs"
    using Cons by simp_all
  then show ?case by (simp add: algebra_simps)
qed

lemma sum_list_strict_lower:
  fixes xs :: "real list"
  assumes "\<And>x. x \<in> set xs \<Longrightarrow> lo \<le> x" and "a \<in> set xs" and "lo < a"
  shows "real (length xs) * lo < sum_list xs"
  using assms
proof (induction xs)
  case Nil
  then show ?case by simp
next
  case (Cons x xs)
  have rest: "real (length xs) * lo \<le> sum_list xs"
    using Cons.prems(1) by (intro sum_list_lower) simp
  show ?case
  proof (cases "a = x")
    case True
    then show ?thesis using rest Cons.prems(3) by (simp add: algebra_simps)
  next
    case False
    then have "real (length xs) * lo < sum_list xs"
      using Cons by auto
    moreover have "lo \<le> x" using Cons.prems(1) by simp
    ultimately show ?thesis by (simp add: algebra_simps)
  qed
qed

lemma removeDCOffset_range:
  assumes "\<And>s. s \<in> set data \<Longrightarrow> - 1 \<le> s \<and> s \<le> 1"
    and "- 1 \<in> set data" and "1 \<in> set data" and "d \<in> set (removeDCOffset data)"
  shows "- 2 < d \<and> d < 2"
proof -
  let ?n = "real (length data)"
  let ?m = "sum_list data / ?n"
  have n: "0 < ?n" using assms(2) by (cases data) auto
  have "sum_list data < ?n * 1"
    by (rule sum_list_strict_upper [of data 1 "- 1"]) (use assms in auto)
  then have upper: "?m < 1" using n by (simp add: pos_divide_less_eq)
  have "?n * (- 1) < sum_list data"
    by (rule sum_list_strict_lower [of data "- 1" 1]) (use assms in auto)
  then have lower: "- 1 < ?m" using n by (simp add: pos_less_divide_eq)
  obtain s where "s \<in> set data" "d = s - ?m"
    using assms(4) by (auto simp add: removeDCOffset_mean)
  then show ?thesis using assms(1) [of s] upper lower by linarith
qed

lemma fold_windowTap:
  "fold (windowTap data) js acc =
     (fst acc + (\<Sum>j\<leftarrow>windowTaps data js. data ! nat j),
      snd acc + length (windowTaps data js))"
  by (induction js arbitrary: acc) (simp_all add: windowTap_def windowTaps_def)

lemma nth_movingAverage:
  assumes "i < length data"
  shows "movingAverage data windowSize ! i =
           (\<Sum>j\<leftarrow>windowTaps data [int i - int (windowSize div 2)..int i + int (windowSize div 2)].
              data ! nat j)
           / real (length (windowTaps data
                      [int i - int (windowSize div 2)..int i + int (windowSize div 2)]))"
  using assms by (simp add: movingAverage_def Let_def fold_windowTap)

lemma movingAverage_bounds:
  assumes "\<And>d. d \<in> set data \<Longrightarrow> lo \<le> d \<and> d \<le> hi"
    and "s \<in> set (movingAverage data windowSize)"
  shows "lo \<le> s \<and> s \<le> hi"
proof -
  obtain i where i: "i < length data" "s = movingAverage data windowSize ! i"
    using assms(2) by (metis in_set_conv_nth length_movingAverage)
  let ?taps = "windowTaps data [int i - int (windowSize div 2)..int i + int (windowSize div 2)]"
  have "int i \<in> set ?taps"
    using i(1) by (simp add: windowTaps_def)
  then have pos: "0 < real (length ?taps)"
    by (cases ?taps) auto
  have "real (length ?taps) * lo \<le> (\<Sum>j\<leftarrow>?taps. data ! nat j)
        \<and> (\<Sum>j\<leftarrow>?taps. data ! nat j) \<le> real (length ?taps) * hi"
  proof (rule sum_list_bounds)
    fix j assume "j \<in> set ?taps"
    then have "nat j < length data" by (auto simp add: windowTaps_def)
    then show "lo \<le> data ! nat j \<and> data ! nat j \<le> hi"
      using assms(1) nth_mem by blast
  qed
  then show ?thesis
    unfolding i(2) nth_movingAverage [OF i(1)]
    using pos by (simp add: pos_le_divide_eq pos_divide_le_eq mult.commute)
qed

lemma normalized_range:
  assumes "\<not> standardDeviation raw < 1 / 100"
  shows "(\<forall>s\<in>set (normalizeWaveform raw). - 1 \<le> s \<and> s \<le> 1)
         \<and> - 1 \<in> set (normalizeWaveform raw) \<and> 1 \<in> set (normalizeWaveform raw)"
proof -
  obtain v vs where raw: "raw = v # vs" "highest v vs - lowest v vs \<noteq> 0"
    using varied_when_deviating [OF assms] by blast
  show ?thesis
    unfolding raw(1) by (rule normalize_range [OF raw(2)])
qed

lemma smoothed_range:
  assumes "\<And>d. d \<in> set dcRemoved \<Longrightarrow> - 2 < d \<and> d < 2"
    and "s \<in> set (movingAverage dcRemoved 5)"
  shows "- 2 < s \<and> s < 2"
proof -
  have "movingAverage [] 5 = []"
    by (simp add: movingAverage_def)
  then have nonempty: "set dcRemoved \<noteq> {}"
    using assms(2) by (cases dcRemoved) auto
  have "Min (set dcRemoved) \<le> s \<and> s \<le> Max (set dcRemoved)"
    using assms(2) by (rule movingAverage_bounds [rotated]) simp
  moreover have "- 2 < Min (set dcRemoved)"
    using assms(1) nonempty by (subst Min_gr_iff) auto
  moreover have "Max (set dcRemoved) < 2"
    using assms(1) nonempty by (subst Max_less_iff) auto
  ultimately show ?thesis by linarith
qed

section \<open>A white pixel on black\<close>

lemma length_dotPixel [simp]: "length (dotPixel i) = 4"
  by (simp add: dotPixel_def)

lemma dot_data:
  "length (img_data dotImage) = 1600"
  "i < 400 \<Longrightarrow> c < 4 \<Longrightarrow> img_data dotImage ! (i * 4 + c) = dotPixel i ! c"
proof -
  have blocks: "length dotData = 400 * 4 \<and> (\<forall>i<400. \<forall>j<4. dotData ! (i * 4 + j) = dotPixel i ! j)"
    unfolding dotData_def by (rule concat_blocks) simp
  show "length (img_data dotImage) = 1600"
    using blocks by (simp add: dotImage_def)
  show "img_data dotImage ! (i * 4 + c) = dotPixel i ! c" if "i < 400" "c < 4"
    using blocks that by (simp add: dotImage_def)
qed

lemma srcByte_nat: "k < length srcData \<Longrightarrow> srcByte srcData (int k) = srcData ! k"
  by (simp add: srcByte_def)

lemma dot_cropPixel:
  assumes "row < 20" and "col < 20"
  shows "cropPixel dotImage wholeRegion row col = dotPixel (row * 20 + col)"
proof -
  let ?i = "row * 20 + col"
  have i: "?i < 400" using assms by simp
  have idx: "((roi_y wholeRegion + int row) * int (img_width dotImage)
                + (roi_x wholeRegion + int col)) * 4 = int (?i * 4)"
    by (simp add: wholeRegion_def dotImage_def)
  have byte: "srcByte (img_data dotImage) (int (?i * 4) + int c) = dotPixel ?i ! c" if "c < 4" for c
  proof -
    have "?i * 4 + c < length (img_data dotImage)"
      using i that by (simp only: dot_data(1)) simp
    then have "srcByte (img_data dotImage) (int (?i * 4 + c)) = img_data dotImage ! (?i * 4 + c)"
      by (rule srcByte_nat)
    then show ?thesis using dot_data(2) [OF i that] by (simp only: of_nat_add)
  qed
  have "cropPixel dotImage wholeRegion row col
          = [dotPixel ?i ! 0, dotPixel ?i ! 1, dotPixel ?i ! 2, dotPixel ?i ! 3]"
    unfolding cropPixel_def idx Let_def
    using byte [of 0] byte [of 1] byte [of 2] byte [of 3] by simp
  then show ?thesis by (simp add: dotPixel_def)
qed

lemma luminance_dotPixel: "luminance (dotPixel i) = (if i = 210 then 255 else 0)"
  by (simp add: luminance_def dotPixel_def)

lemma length_dotGray: "length dotGray = 400"
  unfolding dotGray_def by (simp only: length_gray_crop) (simp add: wholeRegion_def)

lemma nth_dotGray:
  assumes "row < 20" and "col < 20"
  shows "dotGray ! (row * 20 + col) = (if row = 10 \<and> col = 10 then 255 else 0)"
proof -
  have "toGrayscale (cropToROI dotImage wholeRegion) ! (row * nat (roi_width wholeRegion) + col)
          = luminance (cropPixel dotImage wholeRegion row col)"
    by (rule nth_gray_crop) (use assms in \<open>simp_all add: wholeRegion_def\<close>)
  then have "dotGray ! (row * 20 + col) = luminance (dotPixel (row * 20 + col))"
    using assms by (simp add: dotGray_def wholeRegion_def dot_cropPixel [unfolded wholeRegion_def])
  moreover have "row * 20 + col = 210 \<longleftrightarrow> row = 10 \<and> col = 10"
  proof
    assume eq: "row * 20 + col = 210"
    have "\<not> row < 10" "\<not> 10 < row" using eq assms(2) by linarith+
    then show "row = 10 \<and> col = 10" using eq by simp
  qed simp
  ultimately show ?thesis by (simp add: luminance_dotPixel)
qed

lemma stretch_full_range:
  assumes "\<And>g. g \<in> set grayscale \<Longrightarrow> 0 \<le> g \<and> g \<le> 255"
    and "0 \<in> set grayscale" and "255 \<in> set grayscale"
  shows "stretchContrast grayscale = grayscale"
proof (cases grayscale)
  case Nil
  then show ?thesis using assms(2) by simp
next
  case (Cons v vs)
  have "lowest v vs \<in> set grayscale" "highest v vs \<in> set grayscale"
    using lowest_mem [of v vs] highest_mem [of v vs] Cons by simp_all
  moreover have "lowest v vs \<le> 0" "255 \<le> highest v vs"
    using lowest_le [of v vs] highest_ge [of v vs] assms(2,3) Cons by auto
  ultimately have mn: "lowest v vs = 0" and mx: "highest v vs = 255"
    using assms(1) by (force+)
  have "stretchContrast grayscale = map (\<lambda>g. ((g - 0) / 255) * 255) grayscale"
    using Cons mn mx by (simp add: stretchContrast_def Let_def)
  then show ?thesis by simp
qed

lemma stretch_dotGray: "stretchContrast dotGray = dotGray"
proof (rule stretch_full_range)
  show "0 \<le> g \<and> g \<le> 255" if "g \<in> set dotGray" for g
    using that unfolding dotGray_def by (rule toGrayscale_range)
  have "dotGray ! 0 \<in> set dotGray" "dotGray ! 210 \<in> set dotGray"
    by (rule nth_mem, simp add: length_dotGray)+
  moreover have "dotGray ! 0 = 0" "dotGray ! 210 = 255"
    using nth_dotGray [of 0 0] nth_dotGray [of 10 10] by simp_all
  ultimately show "0 \<in> set dotGray" "255 \<in> set dotGray"
    by simp_all
qed

lemma sum_list_upto_delta:
  fixes c :: real
  shows "(\<Sum>k\<leftarrow>[l..u]. if k = b \<and> Q then c else 0) = (if l \<le> b \<and> b \<le> u \<and> Q then c else 0)"
proof (cases Q)
  case True
  have "(\<Sum>k\<leftarrow>[l..u]. if k = b then c else 0) = (\<Sum>k\<in>set [l..u]. if k = b then c else 0)"
    by (rule sum_list_distinct_conv_sum_set) simp
  also have "\<dots> = (if b \<in> set [l..u] then c else 0)"
    by (subst sum.delta) simp_all
  finally show ?thesis using True by simp
next
  case False
  then show ?thesis by simp
qed

lemma inField_nat:
  assumes "inField width height ny nx"
  shows "nat (ny * int width + nx) = nat ny * width + nat nx"
    and "nat ny < height" and "nat nx < width"
  using assms by (auto simp add: inField_def nat_add_distrib nat_mult_distrib nat_less_iff)

lemma dot_tap:
  assumes "inField 20 20 ny nx"
  shows "dotGray ! nat (ny * 20 + nx) = (if nx = 10 \<and> ny = 10 then 255 else 0)"
proof -
  have idx: "nat (ny * 20 + nx) = nat ny * 20 + nat nx"
    using inField_nat(1) [OF assms] by simp
  have bounds: "nat ny < 20" "nat nx < 20"
    using inField_nat(2,3) [OF assms] by simp_all
  have "0 \<le> ny" "0 \<le> nx" using assms by (simp_all add: inField_def)
  then have eq: "nat ny = 10 \<and> nat nx = 10 \<longleftrightarrow> nx = 10 \<and> ny = 10"
    by (auto simp add: nat_eq_iff)
  have "dotGray ! nat (ny * 20 + nx) = dotGray ! (nat ny * 20 + nat nx)"
    by (simp only: idx)
  also have "\<dots> = (if nat ny = 10 \<and> nat nx = 10 then 255 else 0)"
    using bounds by (rule nth_dotGray)
  finally show ?thesis by (simp only: eq)
qed

lemma dot_row_sum:
  assumes "x < 20"
  shows "(\<Sum>kx\<leftarrow>tapsInRow 20 20 y x ky [- 3..3]. dotGray ! nat ((int y + ky) * 20 + (int x + kx)))
           = (if int y + ky = 10 \<and> 7 \<le> x \<and> x \<le> 13 then 255 else 0)"
proof -
  let ?P = "\<lambda>kx. inField 20 20 (int y + ky) (int x + kx)"
  have "(\<Sum>kx\<leftarrow>filter ?P [- 3..3]. dotGray ! nat ((int y + ky) * 20 + (int x + kx)))
          = (\<Sum>kx\<leftarrow>[- 3..3]. if ?P kx then dotGray ! nat ((int y + ky) * 20 + (int x + kx)) else 0)"
    by (rule sum_list_map_filter')
  also have "\<dots> = (\<Sum>kx\<leftarrow>[- 3..3]. if kx = 10 - int x \<and> int y + ky = 10 then 255 else 0)"
  proof (rule arg_cong [where f = sum_list], rule map_cong [OF refl])
    fix kx
    show "(if ?P kx then dotGray ! nat ((int y + ky) * 20 + (int x + kx)) else 0)
            = (if kx = 10 - int x \<and> int y + ky = 10 then 255 else 0)"
    proof (cases "?P kx")
      case True
      then have tap: "dotGray ! nat ((int y + ky) * 20 + (int x + kx))
               = (if int x + kx = 10 \<and> int y + ky = 10 then 255 else 0)"
        by (rule dot_tap)
      have shift: "int x + kx = 10 \<longleftrightarrow> kx = 10 - int x" by linarith
      show ?thesis by (simp only: True if_True tap shift)
    next
      case False
      then show ?thesis by (auto simp add: inField_def)
    qed
  qed
  also have "\<dots> = (if - 3 \<le> 10 - int x \<and> 10 - int x \<le> 3 \<and> int y + ky = 10 then 255 else 0)"
    by (rule sum_list_upto_delta)
  finally show ?thesis
    unfolding tapsInRow_def by (simp add: conj_commute)
qed

lemma dot_sum:
  assumes "x < 20"
  shows "(\<Sum>ky\<leftarrow>[- 3..3]. \<Sum>kx\<leftarrow>tapsInRow 20 20 y x ky [- 3..3].
            dotGray ! nat ((int y + ky) * 20 + (int x + kx)))
           = (if 7 \<le> y \<and> y \<le> 13 \<and> 7 \<le> x \<and> x \<le> 13 then 255 else 0)"
proof -
  have "(\<Sum>ky\<leftarrow>[- 3..3]. \<Sum>kx\<leftarrow>tapsInRow 20 20 y x ky [- 3..3].
            dotGray ! nat ((int y + ky) * 20 + (int x + kx)))
          = (\<Sum>ky\<leftarrow>[- 3..3]. if ky = 10 - int y \<and> (7 \<le> x \<and> x \<le> 13) then 255 else 0)"
  proof (rule arg_cong [where f = sum_list], rule map_cong [OF refl])
    fix ky
    have "int y + ky = 10 \<longleftrightarrow> ky = 10 - int y" by linarith
    then show "(\<Sum>kx\<leftarrow>tapsInRow 20 20 y x ky [- 3..3].
                  dotGray ! nat ((int y + ky) * 20 + (int x + kx)))
            = (if ky = 10 - int y \<and> (7 \<le> x \<and> x \<le> 13) then 255 else 0)"
      by (simp only: dot_row_sum [OF assms])
  qed
  also have "\<dots> = (if - 3 \<le> 10 - int y \<and> 10 - int y \<le> 3 \<and> (7 \<le> x \<and> x \<le> 13) then 255 else 0)"
    by (rule sum_list_upto_delta)
  finally show ?thesis by (simp add: conj_commute)
qed

lemma dot_count:
  assumes "7 \<le> y" and "y \<le> 13" and "7 \<le> x" and "x \<le> 13"
  shows "(\<Sum>ky\<leftarrow>[- 3..3]. length (tapsInRow 20 20 y x ky [- 3..3])) = 49"
proof -
  have "(\<Sum>ky\<leftarrow>[- 3..3]. length (tapsInRow 20 20 y x ky [- 3..3]))
          = (\<Sum>ky\<leftarrow>[- 3..3::int]. 7)"
  proof (rule arg_cong [where f = sum_list], rule map_cong [OF refl])
    fix ky :: int assume "ky \<in> set [- 3..3]"
    then have "filter (\<lambda>kx. inField 20 20 (int y + ky) (int x + kx)) [- 3..3] = [- 3..3]"
      using assms by (auto simp add: filter_id_conv inField_def)
    then show "length (tapsInRow 20 20 y x ky [- 3..3]) = 7"
      by (simp add: tapsInRow_def)
  qed
  also have "\<dots> = 49" by (simp add: sum_list_triv)
  finally show ?thesis .
qed

lemma dot_blurAt:
  assumes "y < 20" and "x < 20"
  shows "blurAt dotGray 20 20 3 y x
           = (if 7 \<le> y \<and> y \<le> 13 \<and> 7 \<le> x \<and> x \<le> 13 then 255 / 49 else 0)"
proof -
  let ?num = "\<Sum>ky\<leftarrow>[- 3..3]. \<Sum>kx\<leftarrow>tapsInRow 20 20 y x ky [- 3..3].
                dotGray ! nat ((int y + ky) * 20 + (int x + kx))"
  let ?count = "\<Sum>ky\<leftarrow>[- 3..3]. length (tapsInRow 20 20 y x ky [- 3..3])"
  have sums: "blurAt dotGray 20 20 3 y x = ?num / real ?count"
    unfolding blurAt_sums by (simp only: of_nat_numeral)
  have num: "?num = (if 7 \<le> y \<and> y \<le> 13 \<and> 7 \<le> x \<and> x \<le> 13 then 255 else 0)"
    using assms(2) by (rule dot_sum)
  show ?thesis
  proof (cases "7 \<le> y \<and> y \<le> 13 \<and> 7 \<le> x \<and> x \<le> 13")
    case True
    then have "?count = 49" by (intro dot_count) simp_all
    then have "blurAt dotGray 20 20 3 y x
                 = (if 7 \<le> y \<and> y \<le> 13 \<and> 7 \<le> x \<and> x \<le> 13 then 255 else 0) / real 49"
      by (simp only: sums num)
    then show ?thesis using True by simp
  next
    case False
    have "blurAt dotGray 20 20 3 y x
                 = (if 7 \<le> y \<and> y \<le> 13 \<and> 7 \<le> x \<and> x \<le> 13 then 255 else 0) / real ?count"
      by (simp only: sums num)
    then show ?thesis using False by (simp only: if_False div_0)
  qed
qed

lemma length_grid: "length (grid f width height) = height * width"
  unfolding grid_def
  using concat_blocks [of height "\<lambda>y. map (\<lambda>x. f y x) [0..<width]" width] by simp

lemma set_grid: "set (grid f width height) = {f y x | y x. y < height \<and> x < width}"
  by (fastforce simp add: grid_def)

lemma rowOf_grid:
  assumes "y < height"
  shows "rowOf (grid f width height) width y = map (\<lambda>x. f y x) [0..<width]"
proof (rule nth_equalityI)
  have row: "y * width + width \<le> length (grid f width height)"
    using assms by (intro row_in_field [where height = height]) (simp_all add: length_grid)
  show "length (rowOf (grid f width height) width y) = length (map (\<lambda>x. f y x) [0..<width])"
    using length_rowOf [OF row] by simp
  fix i assume "i < length (rowOf (grid f width height) width y)"
  then have i: "i < width" using length_rowOf [OF row] by simp
  have "grid f width height ! (y * width + i) = map (\<lambda>x. f y x) [0..<width] ! i"
    unfolding grid_def
    using concat_blocks [of height "\<lambda>y. map (\<lambda>x. f y x) [0..<width]" width] assms i by simp
  then show "rowOf (grid f width height) width y ! i = map (\<lambda>x. f y x) [0..<width] ! i"
    using nth_rowOf [OF row i] by simp
qed

lemma boxBlur_grid:
  "boxBlur data width height radius = grid (blurAt data width height radius) width height"
  by (simp add: boxBlur_def grid_def)

lemma smoothed_dot: "smoothedField dotImage wholeRegion = grid dotBlur 20 20"
proof -
  have "smoothedField dotImage wholeRegion = boxBlur dotGray 20 20 3"
    by (simp add: smoothedField_def wholeRegion_def stretch_dotGray
        dotGray_def [symmetric, unfolded wholeRegion_def])
  also have "\<dots> = grid dotBlur 20 20"
    unfolding boxBlur_grid grid_def
  proof (rule arg_cong [where f = concat], rule map_cong [OF refl], rule map_cong [OF refl])
    fix y x :: nat assume "y \<in> set [0..<20]" "x \<in> set [0..<20]"
    then have "y < 20" "x < 20" by simp_all
    then show "blurAt dotGray 20 20 3 y x = dotBlur y x"
      by (simp only: dot_blurAt dotBlur_def)
  qed
  finally show ?thesis .
qed

lemma otsu_dot: "otsuThreshold (grid dotBlur 20 20) = 0"
proof (rule otsuThreshold_two_bins [where b = 5])
  show "(0::nat) < 5" by simp
  have "dotBlur 0 0 \<in> set (grid dotBlur 20 20)" "dotBlur 10 10 \<in> set (grid dotBlur 20 20)"
    unfolding set_grid by fastforce+
  moreover have "binOf (dotBlur 0 0) = 0" "binOf (dotBlur 10 10) = 5"
    by (simp_all add: dotBlur_def binOf_def)
  ultimately show "\<exists>v\<in>set (grid dotBlur 20 20). binOf v = 0"
    "\<exists>v\<in>set (grid dotBlur 20 20). binOf v = 5"
    by blast+
  have bins: "binOf (dotBlur y x) = 0 \<or> binOf (dotBlur y x) = 5" for y x
    by (simp add: dotBlur_def binOf_def)
  show "\<forall>v\<in>set (grid dotBlur 20 20). binOf v = 0 \<or> binOf v = 5"
  proof
    fix v assume "v \<in> set (grid dotBlur 20 20)"
    then obtain y x where "v = dotBlur y x" unfolding set_grid by blast
    then show "binOf v = 0 \<or> binOf v = 5" using bins [of y x] by simp
  qed
qed

lemma dot_row:
  "map (\<lambda>x. dotBlur y x) [0..<20] =
     (if 7 \<le> y \<and> y \<le> 13
      then [0, 0, 0, 0, 0, 0, 0, 255 / 49, 255 / 49, 255 / 49, 255 / 49, 255 / 49, 255 / 49,
            255 / 49, 0, 0, 0, 0, 0, 0]
      else [0, 0, 0, 0, 0, 0, 0, 0, 0, 0, 0, 0, 0, 0, 0, 0, 0, 0, 0, 0])"
  by (simp add: dotBlur_def upt_rec)

lemma dot_edges:
  assumes "y < 20"
  shows "specEdges (rowOf (grid dotBlur 20 20) 20 y) 0
           = (if 7 \<le> y \<and> y \<le> 13 then Some (7, 14) else Some (0, 20))"
  unfolding rowOf_grid [OF assms] dot_row
  by (simp add: specEdges_def firstIndex_def upt_rec)

lemma dot_amplitude:
  assumes "y < 20"
  shows "rowAmplitude (grid dotBlur 20 20) 20 0 y = (if 7 \<le> y \<and> y \<le> 13 then 7 / 20 else 1)"
proof -
  have row: "y * 20 + 20 \<le> length (grid dotBlur 20 20)"
    using assms by (simp add: length_grid)
  show ?thesis
  proof (cases "7 \<le> y \<and> y \<le> 13")
    case True
    then have "specEdges (rowOf (grid dotBlur 20 20) 20 y) 0 = Some (7, 14)"
      using dot_edges [OF assms] by simp
    from rowAmplitude_found [OF row this] show ?thesis using True by simp
  next
    case False
    then have "specEdges (rowOf (grid dotBlur 20 20) 20 y) 0 = Some (0, 20)"
      using dot_edges [OF assms] by simp
    from rowAmplitude_found [OF row this] show ?thesis using False by simp
  qed
qed

lemma raw_dot: "rawWaveformOf dotImage wholeRegion = dotRaw"
proof -
  have "rawWaveformOf dotImage wholeRegion = findBoundaries (grid dotBlur 20 20) 20 20 0"
    by (simp add: rawWaveformOf_def smoothed_dot otsu_dot wholeRegion_def
        smoothed_dot [unfolded wholeRegion_def] )
  also have "\<dots> = map (\<lambda>y. if 7 \<le> y \<and> y \<le> 13 then 7 / 20 else 1) [0..<20]"
    unfolding findBoundaries_def
    by (rule map_cong [OF refl]) (simp only: dot_amplitude set_upt atLeastLessThan_iff)
  also have "\<dots> = dotRaw"
    by (simp add: dotRaw_def upt_rec)
  finally show ?thesis .
qed

lemma deviation_dotRaw: "\<not> standardDeviation dotRaw < 1 / 100"
proof -
  have "standardDeviation dotRaw = sqrt (153790 / 1600000)"
    by (simp add: standardDeviation_variance dotRaw_def power2_eq_square)
  moreover have "1 / 100 \<le> sqrt (153790 / 1600000)"
    by (rule real_le_rsqrt) (simp add: power2_eq_square)
  ultimately show ?thesis by simp
qed

lemma normalize_dotRaw:
  "normalizeWaveform dotRaw = [1, 1, 1, 1, 1, 1, 1, - 1, - 1, - 1, - 1, - 1, - 1, - 1,
                               1, 1, 1, 1, 1, 1]"
  by (simp add: normalizeWaveform_def dotRaw_def lowest_def highest_def)

lemma removeDC_dotRaw:
  "removeDCOffset [1, 1, 1, 1, 1, 1, 1, - 1, - 1, - 1, - 1, - 1, - 1, - 1, 1, 1, 1, 1, 1, 1]
     = [7 / 10, 7 / 10, 7 / 10, 7 / 10, 7 / 10, 7 / 10, 7 / 10,
        - (13 / 10), - (13 / 10), - (13 / 10), - (13 / 10), - (13 / 10), - (13 / 10), - (13 / 10),
        7 / 10, 7 / 10, 7 / 10, 7 / 10, 7 / 10, 7 / 10]"
  by (simp add: removeDCOffset_mean)

lemma smooth_dotRaw:
  "movingAverage [7 / 10, 7 / 10, 7 / 10, 7 / 10, 7 / 10, 7 / 10, 7 / 10,
        - (13 / 10), - (13 / 10), - (13 / 10), - (13 / 10), - (13 / 10), - (13 / 10), - (13 / 10),
        7 / 10, 7 / 10, 7 / 10, 7 / 10, 7 / 10, 7 / 10] 5 = dotWaveform"
  by (simp add: movingAverage_def windowTap_def dotWaveform_def upt_rec upto_rec1 Let_def)

lemma extract_dot: "extractWaveform dotImage wholeRegion = Inr dotWaveform"
  using deviation_dotRaw
  by (simp add: extractWaveform_stages raw_dot wholeRegion_def raw_dot [unfolded wholeRegion_def]
      normalize_dotRaw removeDC_dotRaw smooth_dotRaw)




end
